theory Spec2Isabelle
  imports Complex_Main "HOL-Library.Sublist" "HOL-Library.Log_Nat"
begin

section \<open>Strings\<close>

text \<open>
  Python strings are modelled as lists of code points below 256 (\<^typ>\<open>char\<close>), which
  covers ASCII and Latin-1 text.  \<open>str.lower\<close> maps the upper-case letters of that range
  (A to Z, and 0xC0 to 0xDE without the multiplication sign 0xD7) 32 places up and leaves
  every other code point alone.
\<close>

definition lower_char :: "char \<Rightarrow> char" where
  "lower_char c =
     (let n = (of_char c :: nat)
      in if (65 \<le> n \<and> n \<le> 90) \<or> (192 \<le> n \<and> n \<le> 222 \<and> n \<noteq> 215)
         then char_of (n + 32) else c)"

definition lower :: "string \<Rightarrow> string" where
  "lower s = map lower_char s"

text \<open>\<open>sub in s\<close> on strings: \<open>sub\<close> occurs in \<open>s\<close> as a contiguous run.\<close>

primrec py_in :: "string \<Rightarrow> string \<Rightarrow> bool" where
  "py_in sub [] = (sub = [])"
| "py_in sub (c # cs) = (prefix sub (c # cs) \<or> py_in sub cs)"

definition startswith :: "string \<Rightarrow> string \<Rightarrow> bool" where
  "startswith s p = prefix p s"

definition endswith :: "string \<Rightarrow> string \<Rightarrow> bool" where
  "endswith s p = suffix p s"

text \<open>\<open>d.get(key, default)\<close> on a field that may be absent.\<close>

definition get_default :: "'a option \<Rightarrow> 'a \<Rightarrow> 'a" where
  "get_default field dflt = (case field of None \<Rightarrow> dflt | Some v \<Rightarrow> v)"

section \<open>Source events\<close>

text \<open>
  An event of the source calendar is a JSON object; the record has one optional field per
  key that \<open>main.py\<close> reads (\<open>None\<close>: the key is absent).  \<open>start\<close> and \<open>end\<close> are objects
  with the keys \<open>dateTime\<close> and \<open>date\<close>; \<open>creator\<close> is an object of which the \<open>email\<close> key
  is read; \<open>attendees\<close> is a list of objects of which the \<open>email\<close> key is read.
\<close>

record time_point =
  tp_dateTime :: "string option"
  tp_date :: "string option"

record gevent =
  ev_id :: "string option"
  ev_summary :: "string option"
  ev_description :: "string option"
  ev_location :: "string option"
  ev_start :: "time_point option"
  ev_end :: "time_point option"
  ev_creator :: "string option option"
  ev_attendees :: "string option list option"

section \<open>Event filter\<close>

text \<open>
  \<open>var.EVENT_FILTERS\<close> is a dictionary from clause names to keyword lists, here an
  association list read with \<^const>\<open>map_of\<close>; \<open>None\<close> stands for a configuration module
  without the attribute.
\<close>

type_synonym filters = "(string \<times> string list) list"

text \<open>
  \<open>if key in filters: for kw in filters[key]: if test(kw): return ...\<close> leaves through
  the \<open>return\<close> exactly when the key is present and some keyword passes the test.
\<close>

definition clause_hits :: "filters \<Rightarrow> string \<Rightarrow> (string \<Rightarrow> bool) \<Rightarrow> bool" where
  "clause_hits fs key test =
     (case map_of fs key of None \<Rightarrow> False | Some kws \<Rightarrow> list_ex test kws)"

definition should_sync_event :: "filters option \<Rightarrow> gevent \<Rightarrow> bool" where
  "should_sync_event EVENT_FILTERS event =
     (case EVENT_FILTERS of
        None \<Rightarrow> True
      | Some fs \<Rightarrow>
          if fs = [] then True
          else
            let event_title = lower (get_default (ev_summary event) []);
                event_description = lower (get_default (ev_description event) []);
                event_location = lower (get_default (ev_location event) []);
                creator_email = lower (get_default (get_default (ev_creator event) None) []);
                attendee_emails =
                  map (\<lambda>attendee. lower (get_default attendee []))
                      (get_default (ev_attendees event) [])
            in
              if clause_hits fs ''title_contains'' (\<lambda>kw. py_in (lower kw) event_title)
                then True
              else if clause_hits fs ''title_starts_with''
                        (\<lambda>kw. startswith event_title (lower kw))
                then True
              else if clause_hits fs ''title_ends_with''
                        (\<lambda>kw. endswith event_title (lower kw))
                then True
              else if clause_hits fs ''description_contains''
                        (\<lambda>kw. py_in (lower kw) event_description)
                then True
              else if clause_hits fs ''location_contains''
                        (\<lambda>kw. py_in (lower kw) event_location)
                then True
              else if clause_hits fs ''creator_email'' (\<lambda>kw. lower kw = creator_email)
                then True
              else if clause_hits fs ''attendee_email''
                        (\<lambda>kw. lower kw \<in> set attendee_emails)
                then True
              else if clause_hits fs ''exclude_title_contains''
                        (\<lambda>kw. py_in (lower kw) event_title)
                then False
              else if clause_hits fs ''exclude_description_contains''
                        (\<lambda>kw. py_in (lower kw) event_description)
                then False
              else False)"

section \<open>Hyperlink normalisation\<close>

text \<open>
  \<open>parse_html_links\<close> substitutes every match of the regular expression
  \<^verbatim>\<open><a\s+href="([^"]+)"[^>]*>([^<]+)</a>\<close>, compiled with \<open>re.IGNORECASE\<close>.
  Each greedy repetition of the pattern is followed by a literal character that the
  repeated class excludes, so backtracking never finds a match that the longest run
  misses, and a match at a position is found by one scan from left to right.
\<close>

definition dquote :: char where
  "dquote = CHR 0x22"

text \<open>The white space of \<open>\s\<close> on text patterns, for code points below 256.\<close>

definition is_space :: "char \<Rightarrow> bool" where
  "is_space c =
     (let n = (of_char c :: nat)
      in (9 \<le> n \<and> n \<le> 13) \<or> (28 \<le> n \<and> n \<le> 32) \<or> n = 133 \<or> n = 160)"

text \<open>A literal piece of the pattern, matched without regard to case.\<close>

fun strip_ci :: "string \<Rightarrow> string \<Rightarrow> string option" where
  "strip_ci [] s = Some s"
| "strip_ci (p # ps) [] = None"
| "strip_ci (p # ps) (c # cs) =
     (if lower_char c = lower_char p then strip_ci ps cs else None)"

text \<open>
  One match attempt at the head of \<open>s\<close>: the two groups and the text after the match.
\<close>

definition match_anchor :: "string \<Rightarrow> (string \<times> string \<times> string) option" where
  "match_anchor s =
     (case strip_ci ''<a'' s of
        None \<Rightarrow> None
      | Some r1 \<Rightarrow>
          if takeWhile is_space r1 = [] then None
          else
            (case strip_ci (''href='' @ [dquote]) (dropWhile is_space r1) of
               None \<Rightarrow> None
             | Some r2 \<Rightarrow>
                 let url = takeWhile (\<lambda>c. c \<noteq> dquote) r2
                 in if url = [] then None
                    else
                      (case strip_ci [dquote] (dropWhile (\<lambda>c. c \<noteq> dquote) r2) of
                         None \<Rightarrow> None
                       | Some r3 \<Rightarrow>
                           (case strip_ci ''>'' (dropWhile (\<lambda>c. c \<noteq> CHR ''>'') r3) of
                              None \<Rightarrow> None
                            | Some r4 \<Rightarrow>
                                let link_text = takeWhile (\<lambda>c. c \<noteq> CHR ''<'') r4
                                in if link_text = [] then None
                                   else
                                     (case strip_ci ''</a>''
                                             (dropWhile (\<lambda>c. c \<noteq> CHR ''<'') r4) of
                                        None \<Rightarrow> None
                                      | Some rest \<Rightarrow> Some (url, link_text, rest))))))"

lemma strip_ci_length: "strip_ci p s = Some r \<Longrightarrow> length s = length p + length r"
  by (induction p s rule: strip_ci.induct) (auto split: if_splits)

lemma length_dropWhile_le': "length (dropWhile P xs) \<le> length xs"
  by (induction xs) auto

lemma match_anchor_shorter:
  assumes "match_anchor s = Some (url, link_text, rest)"
  shows "length rest < length s"
proof -
  from assms obtain r1 r2 r3 r4 where
    1: "strip_ci ''<a'' s = Some r1" and
    2: "strip_ci (''href='' @ [dquote]) (dropWhile is_space r1) = Some r2" and
    3: "strip_ci [dquote] (dropWhile (\<lambda>c. c \<noteq> dquote) r2) = Some r3" and
    4: "strip_ci ''>'' (dropWhile (\<lambda>c. c \<noteq> CHR ''>'') r3) = Some r4" and
    5: "strip_ci ''</a>'' (dropWhile (\<lambda>c. c \<noteq> CHR ''<'') r4) = Some rest"
    by (auto simp: match_anchor_def Let_def split: option.splits if_splits)
  have "length rest \<le> length r4"
    using strip_ci_length [OF 5] length_dropWhile_le' [of "\<lambda>c. c \<noteq> CHR ''<''" r4] by simp
  also have "\<dots> \<le> length r3"
    using strip_ci_length [OF 4] length_dropWhile_le' [of "\<lambda>c. c \<noteq> CHR ''>''" r3] by simp
  also have "\<dots> \<le> length r2"
    using strip_ci_length [OF 3] length_dropWhile_le' [of "\<lambda>c. c \<noteq> dquote" r2] by simp
  also have "\<dots> \<le> length r1"
    using strip_ci_length [OF 2] length_dropWhile_le' [of is_space r1] by simp
  also have "\<dots> < length s"
    using strip_ci_length [OF 1] by simp
  finally show ?thesis .
qed

text \<open>
  \<open>re.sub\<close> scans from the left: where the pattern matches, the match is replaced by
  \<open>url (link_text)\<close> and the scan goes on behind it; elsewhere the character is copied.
  (\<open>if not text: return text\<close> returns the empty string as it is.)
\<close>

function parse_html_links :: "string \<Rightarrow> string" where
  "parse_html_links [] = []"
| "parse_html_links (c # cs) =
     (case match_anchor (c # cs) of
        None \<Rightarrow> c # parse_html_links cs
      | Some (url, link_text, rest) \<Rightarrow>
          url @ '' ('' @ link_text @ '')'' @ parse_html_links rest)"
  by pat_completeness auto
termination
  by (relation "measure length") (auto dest: match_anchor_shorter)

section \<open>Errors\<close>

text \<open>The exceptions that the modelled code can raise, as values.\<close>

datatype error =
  KeyError string
  | AttributeError
  | TypeError
  | ValueError
  | OverflowError
  | JSONDecodeError

section \<open>Dates, times and time zones\<close>

text \<open>A naive \<open>datetime\<close> with a resolution of seconds.\<close>

record datetime =
  year :: nat
  month :: nat
  day :: nat
  hour :: nat
  minute :: nat
  second :: nat

definition digit_val :: "char \<Rightarrow> nat option" where
  "digit_val c =
     (let n = (of_char c :: nat) in if 48 \<le> n \<and> n \<le> 57 then Some (n - 48) else None)"

definition digit_char :: "nat \<Rightarrow> char" where
  "digit_char v = char_of (48 + v)"

text \<open>The number written by a string of decimal digits (\<open>acc\<close>: the digits read so far).\<close>

fun number_from :: "nat \<Rightarrow> string \<Rightarrow> nat option" where
  "number_from acc [] = Some acc"
| "number_from acc (c # cs) =
     (case digit_val c of None \<Rightarrow> None | Some v \<Rightarrow> number_from (10 * acc + v) cs)"

definition number :: "string \<Rightarrow> nat option" where
  "number s = number_from 0 s"

fun dec :: "nat \<Rightarrow> string" where
  "dec n = (if n < 10 then [digit_char n] else dec (n div 10) @ [digit_char (n mod 10)])"

declare dec.simps [simp del]

text \<open>\<open>'%0kd' % n\<close>: decimal, padded with zeros to at least \<open>k\<close> characters.\<close>

definition zpad :: "nat \<Rightarrow> nat \<Rightarrow> string" where
  "zpad k n = replicate (k - length (dec n)) (CHR ''0'') @ dec n"

definition is_leap :: "nat \<Rightarrow> bool" where
  "is_leap y = (y mod 4 = 0 \<and> (y mod 100 \<noteq> 0 \<or> y mod 400 = 0))"

definition days_in_month :: "nat \<Rightarrow> nat \<Rightarrow> nat" where
  "days_in_month y m =
     (if m = 2 then (if is_leap y then 29 else 28)
      else if m = 4 \<or> m = 6 \<or> m = 9 \<or> m = 11 then 30 else 31)"

text \<open>
  \<open>datetime.fromisoformat\<close> on a string without offset.  The model reads the shape
  \<open>YYYY-MM-DD?HH:MM:SS\<close> (any one character between date and time), which is what the
  strings built for whole-day events have; the field ranges are those of the \<open>datetime\<close>
  constructor.  \<open>None\<close> is the \<open>ValueError\<close>.  Other spellings that newer Python versions
  read as well are not modelled.
\<close>

definition fromisoformat :: "string \<Rightarrow> datetime option" where
  "fromisoformat s =
     (if length s = 19 \<and> s ! 4 = CHR ''-'' \<and> s ! 7 = CHR ''-''
         \<and> s ! 13 = CHR '':'' \<and> s ! 16 = CHR '':''
      then
        (case (number (take 4 s), number (take 2 (drop 5 s)), number (take 2 (drop 8 s)),
               number (take 2 (drop 11 s)), number (take 2 (drop 14 s)),
               number (take 2 (drop 17 s))) of
           (Some y, Some m, Some d, Some hh, Some mm, Some ss) \<Rightarrow>
             if 1 \<le> y \<and> 1 \<le> m \<and> m \<le> 12 \<and> 1 \<le> d \<and> d \<le> days_in_month y m
                \<and> hh \<le> 23 \<and> mm \<le> 59 \<and> ss \<le> 59
             then Some \<lparr>year = y, month = m, day = d, hour = hh, minute = mm, second = ss\<rparr>
             else None
         | _ \<Rightarrow> None)
      else None)"

text \<open>
  The offset part of \<open>datetime.isoformat\<close>: sign, hours and minutes, and the seconds only
  when they are not zero.  The offset is in seconds.
\<close>

definition format_offset :: "int \<Rightarrow> string" where
  "format_offset off =
     (let a = nat \<bar>off\<bar>; hh = a div 3600; mm = (a mod 3600) div 60; ss = a mod 60
      in (if off < 0 then ''-'' else ''+'') @ zpad 2 hh @ '':'' @ zpad 2 mm
         @ (if ss \<noteq> 0 then '':'' @ zpad 2 ss else []))"

definition isoformat :: "datetime \<Rightarrow> int \<Rightarrow> string" where
  "isoformat dt off =
     zpad 4 (year dt) @ ''-'' @ zpad 2 (month dt) @ ''-'' @ zpad 2 (day dt) @ ''T''
     @ zpad 2 (hour dt) @ '':'' @ zpad 2 (minute dt) @ '':'' @ zpad 2 (second dt)
     @ format_offset off"

text \<open>
  The time zone database is outside the program, so it is a parameter: \<open>ZoneInfo name\<close>
  is \<open>None\<close> when the constructor raises, and otherwise the function \<open>utcoffset\<close> of that
  zone, from a local date and time to the offset from UTC in seconds.  The branch of
  \<open>convert_utc_to_timezone\<close> for strings that carry an offset (lines 193 to 209:
  \<open>fromisoformat\<close> with offset, \<open>astimezone\<close>, \<open>isoformat\<close>) is a parameter as well:
  \<open>convert_aware zone s\<close> is its result for the zone (\<open>None\<close>: the UTC fallback),
  or \<open>None\<close> when it raises.
\<close>

type_synonym zone = "datetime \<Rightarrow> int"

record tzlib =
  ZoneInfo :: "string \<Rightarrow> zone option"
  convert_aware :: "zone option \<Rightarrow> string \<Rightarrow> string option"

definition has_timezone_info :: "string \<Rightarrow> bool" where
  "has_timezone_info s =
     (let tail = drop (length s - 6) s
      in endswith s ''Z'' \<or> endswith s ''+00:00''
         \<or> CHR ''+'' \<in> set tail \<or> CHR ''-'' \<in> set tail)"

definition convert_utc_to_timezone :: "tzlib \<Rightarrow> string \<Rightarrow> string \<Rightarrow> string" where
  "convert_utc_to_timezone lib utc_iso_string target_timezone_str =
     (let target_tz = ZoneInfo lib target_timezone_str
      in if has_timezone_info utc_iso_string
         then (case convert_aware lib target_tz utc_iso_string of
                 None \<Rightarrow> utc_iso_string
               | Some converted \<Rightarrow> converted)
         else (case fromisoformat utc_iso_string of
                 None \<Rightarrow> utc_iso_string
               | Some naive_dt \<Rightarrow>
                   isoformat naive_dt
                     (case target_tz of None \<Rightarrow> 0 | Some utcoffset \<Rightarrow> utcoffset naive_dt)))"

section \<open>Fingerprints\<close>

record signature =
  sig_title :: string
  sig_description :: string
  sig_start_time :: "string option"
  sig_end_time :: "string option"
  sig_location :: string
  sig_is_discord_event :: bool

text \<open>
  \<open>start.get('dateTime', start.get('date'))\<close>: the \<open>dateTime\<close> value, else the
  \<open>date\<close> value, else \<open>None\<close>.
\<close>

definition time_of :: "time_point \<Rightarrow> string option" where
  "time_of tp = (case tp_dateTime tp of Some v \<Rightarrow> Some v | None \<Rightarrow> tp_date tp)"

text \<open>
  Lines 234 to 239, shared word for word by \<open>get_event_signature\<close> and
  \<open>create_or_update_discord_event\<close>: the start and end time of the event, with a
  whole-day event (one whose \<open>start\<close> has the key \<open>date\<close>) spread from 00:00:00 to
  23:59:59.  \<open>event['start']\<close> and \<open>event['end']\<close> raise \<open>KeyError\<close> on a missing key.
\<close>

definition event_times ::
  "tzlib \<Rightarrow> string \<Rightarrow> gevent \<Rightarrow> error + (string option \<times> string option)" where
  "event_times lib TIMEZONE event =
     (case ev_start event of
        None \<Rightarrow> Inl (KeyError ''start'')
      | Some start \<Rightarrow>
          (case ev_end event of
             None \<Rightarrow> Inl (KeyError ''end'')
           | Some end_tp \<Rightarrow>
               (case tp_date start of
                  None \<Rightarrow> Inr (time_of start, time_of end_tp)
                | Some d \<Rightarrow>
                    let start_time = get_default (tp_dateTime start) d
                    in Inr (Some (convert_utc_to_timezone lib (start_time @ ''T00:00:00'')
                                    TIMEZONE),
                            Some (convert_utc_to_timezone lib (start_time @ ''T23:59:59'')
                                    TIMEZONE)))))"

definition get_event_signature :: "tzlib \<Rightarrow> string \<Rightarrow> gevent \<Rightarrow> error + signature" where
  "get_event_signature lib TIMEZONE event =
     (case event_times lib TIMEZONE event of
        Inl e \<Rightarrow> Inl e
      | Inr (start_time, end_time) \<Rightarrow>
          let event_location = lower (get_default (ev_location event) []);
              is_discord_event = py_in ''discord'' event_location
          in Inr \<lparr>sig_title = get_default (ev_summary event) [],
                  sig_description = parse_html_links (get_default (ev_description event) []),
                  sig_start_time = start_time,
                  sig_end_time = end_time,
                  sig_location = get_default (ev_location event) [],
                  sig_is_discord_event = is_discord_event\<rparr>)"

text \<open>
  \<open>events_are_different\<close>: a missing or empty stored signature counts as different (a
  stored signature with its six keys is never empty); otherwise the six fields are
  compared.
\<close>

definition events_are_different ::
  "tzlib \<Rightarrow> string \<Rightarrow> gevent \<Rightarrow> signature option \<Rightarrow> error + bool" where
  "events_are_different lib TIMEZONE current_event stored_signature =
     (case stored_signature of
        None \<Rightarrow> Inr True
      | Some stored \<Rightarrow>
          (case get_event_signature lib TIMEZONE current_event of
             Inl e \<Rightarrow> Inl e
           | Inr current_signature \<Rightarrow> Inr (current_signature \<noteq> stored)))"

section \<open>The target platform\<close>

text \<open>
  A value read out of a JSON body: \<open>None\<close> (also the result of \<open>get\<close> on a missing
  key), a number or a string.  \<open>if v:\<close> tests \<^term>\<open>truthy v\<close>.
\<close>

datatype pyval = PyNone | PyNum rat | PyStr string

fun truthy :: "pyval \<Rightarrow> bool" where
  "truthy PyNone = False"
| "truthy (PyNum x) = (x \<noteq> 0)"
| "truthy (PyStr s) = (s \<noteq> [])"

text \<open>
  The body of a response as \<open>response.json()\<close> sees it: not JSON at all (the call raises
  \<open>JSONDecodeError\<close>), an object, or an array of objects.  Objects are association lists
  of the scalar entries.
\<close>

datatype body =
  NotJson
  | JObject "(string \<times> pyval) list"
  | JArray "(string \<times> pyval) list list"

record response =
  status_code :: int
  body :: body

text \<open>The \<open>data\<close> dictionary that \<open>create_or_update_discord_event\<close> sends.\<close>

record payload =
  p_name :: string
  p_description :: string
  p_scheduled_start_time :: "string option"
  p_scheduled_end_time :: "string option"
  p_privacy_level :: nat
  p_entity_type :: nat
  p_channel_id :: "string option"
  p_entity_metadata_location :: "string option"

datatype request =
  Get
  | Post payload
  | Patch pyval payload
  | Delete pyval

text \<open>
  A synchronisation link, one entry of \<open>synced_events["events"]\<close>.
\<close>

record link =
  google_event_id :: string
  discord_event_id :: pyval
  link_date :: "string option"
  link_title :: string
  link_channel :: string
  link_notes :: string
  link_signature :: "signature option"

text \<open>
  The file \<open>synced_events.json\<close>: absent, present with a content that \<open>json.load\<close>
  rejects, or present with a document.
\<close>

datatype file_state = Absent | Corrupt | Document "link list"

text \<open>
  What a cycle plans for the target platform, named as in the specification: the three
  call sites of \<open>create_or_update_discord_event\<close> and the call of
  \<open>delete_discord_event\<close>, each with the identifier of the source event.
\<close>

datatype action =
  Create string
  | Update string pyval
  | Recreate string
  | Delete_action pyval string

text \<open>
  The state that the program reads and writes: the global \<open>synced_events\<close>, the mapping
  file, every request sent to the target platform so far, and every duration passed to
  \<open>time.sleep\<close>.  \<open>actions\<close> is a trace for the benefit of the theorems: each action the
  loop has carried out, with whether it succeeded.  The log file is not modelled.
\<close>

record world =
  synced_events :: "link list"
  mapping_file :: file_state
  sent :: "request list"
  sleeps :: "rat list"
  actions :: "(action \<times> bool) list"

text \<open>
  The configuration module \<open>var\<close>, the time zone library, and the target platform: the
  response to the \<open>n\<close>-th request (counted from 0) is \<open>net n\<close>.
\<close>

record env =
  TIMEZONE :: string
  EVENT_FILTERS :: "filters option"
  DISCORD_CHANNEL_ID :: string
  tz :: tzlib
  net :: "nat \<Rightarrow> response"

section \<open>Mapping store\<close>

definition load_synced_events :: "file_state \<Rightarrow> error + link list" where
  "load_synced_events f =
     (case f of
        Absent \<Rightarrow> Inr []
      | Corrupt \<Rightarrow> Inl JSONDecodeError
      | Document links \<Rightarrow> Inr links)"

definition save_synced_events :: "world \<Rightarrow> world" where
  "save_synced_events w = w\<lparr>mapping_file := Document (synced_events w)\<rparr>"

section \<open>Floating-point numbers\<close>

text \<open>
  A number of the program is modelled by its value, a rational.  A Python \<open>int\<close> is any
  whole number; a Python \<open>float\<close> is an IEEE 754 binary64 number, a rational of the form
  \<open>m * 2 ^ k\<close> with \<open>\<bar>m\<bar> < 2 ^ 53\<close>.  An operation on floats returns the exact result
  rounded to the nearest float, and of two nearest floats the one with the even
  significand.

  \<open>binade q\<close> is the exponent \<open>e\<close> with \<open>2 ^ e \<le> \<bar>q\<bar> < 2 ^ (e + 1)\<close>, and \<open>fl q\<close> is
  \<open>q\<close> rounded to 53 significant bits.  The exponent of \<open>fl\<close> is not bounded: where
  binary64 overflows to infinity, \<open>fl\<close> has a finite value above every binary64 number,
  and \<open>time.sleep\<close> rejects the one as it rejects the other (\<open>too_long\<close> below); a sum
  of two floats that is too small in size for a normal binary64 number is exact in
  binary64 and under \<open>fl\<close> alike.
\<close>

definition binade :: "rat \<Rightarrow> int" where
  "binade q =
     (if 1 \<le> \<bar>q\<bar> then bitlen \<lfloor>\<bar>q\<bar>\<rfloor> - 1 else - bitlen (\<lceil>1 / \<bar>q\<bar>\<rceil> - 1))"

definition round_half_even :: "rat \<Rightarrow> int" where
  "round_half_even n =
     (let f = \<lfloor>n\<rfloor>; d = n - of_int f
      in if d < 1 / 2 then f else if 1 / 2 < d then f + 1 else if even f then f else f + 1)"

definition fl :: "rat \<Rightarrow> rat" where
  "fl q =
     (if q = 0 then 0
      else let ulp = power_int 2 (binade q - 52)
           in of_int (round_half_even (q / ulp)) * ulp)"

text \<open>
  \<open>x + y\<close> with a float among the operands, as in \<open>retry_after + 0.5\<close>: an operand that
  is an \<open>int\<close> is first converted to the nearest float, and the sum of the two floats is
  rounded.  (\<open>fl\<close> leaves a float as it is.)
\<close>

definition float_add :: "rat \<Rightarrow> rat \<Rightarrow> rat" where
  "float_add x y = fl (fl x + fl y)"

text \<open>
  \<open>time.sleep\<close> first converts the duration to nanoseconds, the float product with
  \<open>10 ^ 9\<close>, which has to fit a signed 64-bit integer (the comparison is that of
  CPython 3.11; floats of that size are whole numbers).
\<close>

definition too_long :: "rat \<Rightarrow> bool" where
  "too_long secs = (let d = fl (secs * 10 ^ 9) in d < - (2 ^ 63) \<or> 2 ^ 63 \<le> d)"

section \<open>Requests, sleeping, and the retry loop\<close>

definition send :: "env \<Rightarrow> request \<Rightarrow> world \<Rightarrow> response \<times> world" where
  "send e req w = (net e (length (sent w)), w\<lparr>sent := sent w @ [req]\<rparr>)"

text \<open>
  \<open>time.sleep\<close> raises \<open>OverflowError\<close> on a duration that does not fit, and
  \<open>ValueError\<close> on a negative one.
\<close>

definition sleep :: "rat \<Rightarrow> world \<Rightarrow> error + world" where
  "sleep secs w =
     (if too_long secs then Inl OverflowError
      else if secs < 0 then Inl ValueError
      else Inr (w\<lparr>sleeps := sleeps w @ [secs]\<rparr>))"

definition max_retries :: nat where
  "max_retries = 3"

text \<open>
  The loop \<open>while response.status_code == 429 and retry_count < max_retries\<close>, which
  \<open>create_or_update_discord_event\<close> and \<open>delete_discord_event\<close> share word for word
  apart from the log texts.  In the \<open>try\<close> block, \<open>response.json()\<close> raises
  \<open>JSONDecodeError\<close> on a body that is not JSON, which the \<open>except\<close> clause handles by
  sleeping 5 seconds; \<open>.get\<close> on an array raises \<open>AttributeError\<close>, adding 0.5 to a
  value that is not a number raises \<open>TypeError\<close>, and sleeping a negative time or one
  that does not fit raises \<open>ValueError\<close> or \<open>OverflowError\<close>, none of which the
  \<open>except\<close> clause handles.  The duration slept is the float sum \<open>retry_after + 0.5\<close>.
\<close>

function rate_limit_loop ::
  "env \<Rightarrow> request \<Rightarrow> response \<Rightarrow> nat \<Rightarrow> world \<Rightarrow> (error + response) \<times> world" where
  "rate_limit_loop e req resp retry_count w =
     (if status_code resp = 429 \<and> retry_count < max_retries
      then
        (case body resp of
           NotJson \<Rightarrow>
             (case sleep 5 w of
                Inl err \<Rightarrow> (Inl err, w)
              | Inr w1 \<Rightarrow>
                  (case send e req w1 of
                     (resp', w2) \<Rightarrow> rate_limit_loop e req resp' (retry_count + 1) w2))
         | JArray objs \<Rightarrow> (Inl AttributeError, w)
         | JObject rate_limit_data \<Rightarrow>
             (case get_default (map_of rate_limit_data ''retry_after'') (PyNum 5) of
                PyNum retry_after \<Rightarrow>
                  (case sleep (float_add retry_after (1 / 2)) w of
                     Inl err \<Rightarrow> (Inl err, w)
                   | Inr w1 \<Rightarrow>
                       (case send e req w1 of
                          (resp', w2) \<Rightarrow> rate_limit_loop e req resp' (retry_count + 1) w2))
              | PyNone \<Rightarrow> (Inl TypeError, w)
              | PyStr v \<Rightarrow> (Inl TypeError, w)))
      else (Inr resp, w))"
  by pat_completeness auto
termination
  by (relation "measure (\<lambda>(e, req, resp, retry_count, w). max_retries - retry_count)") auto

declare rate_limit_loop.simps [simp del]



section \<open>Creating, updating and deleting target events\<close>

definition build_payload :: "env \<Rightarrow> gevent \<Rightarrow> error + payload" where
  "build_payload e event =
     (case event_times (tz e) (TIMEZONE e) event of
        Inl err \<Rightarrow> Inl err
      | Inr (start_time, end_time) \<Rightarrow>
          let event_location = lower (get_default (ev_location event) []);
              is_discord_event = py_in ''discord'' event_location
          in (case ev_summary event of
                None \<Rightarrow> Inl (KeyError ''summary'')
              | Some name \<Rightarrow>
                  Inr \<lparr>p_name = name,
                       p_description = parse_html_links (get_default (ev_description event) []),
                       p_scheduled_start_time = start_time,
                       p_scheduled_end_time = end_time,
                       p_privacy_level = 2,
                       p_entity_type = (if is_discord_event then 2 else 3),
                       p_channel_id =
                         (if is_discord_event then Some (DISCORD_CHANNEL_ID e) else None),
                       p_entity_metadata_location =
                         (if is_discord_event then None
                          else Some (get_default (ev_location event) ''External Event''))\<rparr>))"

text \<open>
  \<open>existing_id\<close> is the argument \<open>discord_event_id\<close> of the source, \<open>PyNone\<close> for
  its default.  The result is the
  identifier in the response, or \<open>PyNone\<close> for a failure.
\<close>

definition create_or_update_discord_event ::
  "env \<Rightarrow> gevent \<Rightarrow> pyval \<Rightarrow> world \<Rightarrow> (error + pyval) \<times> world" where
  "create_or_update_discord_event e event existing_id w =
     (case build_payload e event of
        Inl err \<Rightarrow> (Inl err, w)
      | Inr data \<Rightarrow>
          let req = (if existing_id = PyNone then Post data
                     else Patch existing_id data)
          in (case send e req w of
                (resp0, w0) \<Rightarrow>
                  (case rate_limit_loop e req resp0 0 w0 of
                     (Inl err, w1) \<Rightarrow> (Inl err, w1)
                   | (Inr resp, w1) \<Rightarrow>
                       (case sleep 2 w1 of
                          Inl err \<Rightarrow> (Inl err, w1)
                        | Inr w2 \<Rightarrow>
                            if status_code resp = 200 \<or> status_code resp = 201
                            then (case body resp of
                                    NotJson \<Rightarrow> (Inl JSONDecodeError, w2)
                                  | JArray objs \<Rightarrow> (Inl AttributeError, w2)
                                  | JObject obj \<Rightarrow>
                                      (Inr (get_default (map_of obj ''id'') PyNone), w2))
                            else (Inr PyNone, w2)))))"

text \<open>
  The source function returns nothing and writes one of three log lines; the model
  returns whether it was the line of the successful case, status 204.
\<close>

definition delete_discord_event ::
  "env \<Rightarrow> pyval \<Rightarrow> world \<Rightarrow> (error + bool) \<times> world" where
  "delete_discord_event e event_id w =
     (case send e (Delete event_id) w of
        (resp0, w0) \<Rightarrow>
          (case rate_limit_loop e (Delete event_id) resp0 0 w0 of
             (Inl err, w1) \<Rightarrow> (Inl err, w1)
           | (Inr resp, w1) \<Rightarrow>
               (case sleep 2 w1 of
                  Inl err \<Rightarrow> (Inl err, w1)
                | Inr w2 \<Rightarrow> (Inr (status_code resp = 204), w2))))"

definition get_discord_events :: "env \<Rightarrow> world \<Rightarrow> (error + body) \<times> world" where
  "get_discord_events e w =
     (case send e Get w of
        (resp, w1) \<Rightarrow>
          if status_code resp = 200
          then (case body resp of
                  NotJson \<Rightarrow> (Inl JSONDecodeError, w1)
                | b \<Rightarrow> (Inr b, w1))
          else (Inr (JArray []), w1))"

section \<open>The synchronisation cycle\<close>

text \<open>
  \<open>{event['id'] for event in discord_events}\<close>.  Over an array of objects, an object
  without \<open>id\<close> raises \<open>KeyError\<close>.  Over an object the loop runs through its keys, and
  indexing a key with \<open>'id'\<close> raises \<open>TypeError\<close>.  (\<open>get_discord_events\<close> never returns
  \<^const>\<open>NotJson\<close>.)
\<close>

fun ids_of :: "(string \<times> pyval) list list \<Rightarrow> error + pyval list" where
  "ids_of [] = Inr []"
| "ids_of (obj # objs) =
     (case map_of obj ''id'' of
        None \<Rightarrow> Inl (KeyError ''id'')
      | Some v \<Rightarrow> (case ids_of objs of Inl err \<Rightarrow> Inl err | Inr vs \<Rightarrow> Inr (v # vs)))"

definition discord_event_ids_of :: "body \<Rightarrow> error + pyval list" where
  "discord_event_ids_of discord_events =
     (case discord_events of
        JArray objs \<Rightarrow> ids_of objs
      | JObject obj \<Rightarrow> (if obj = [] then Inr [] else Inl TypeError)
      | NotJson \<Rightarrow> Inl JSONDecodeError)"

text \<open>\<open>{event['id'] for event in filtered_events}\<close>.\<close>

fun google_event_ids_of :: "gevent list \<Rightarrow> error + string list" where
  "google_event_ids_of [] = Inr []"
| "google_event_ids_of (event # events) =
     (case ev_id event of
        None \<Rightarrow> Inl (KeyError ''id'')
      | Some i \<Rightarrow>
          (case google_event_ids_of events of Inl err \<Rightarrow> Inl err | Inr is \<Rightarrow> Inr (i # is)))"

text \<open>The dictionary \<open>event_data\<close> and \<open>synced_event.update(event_data)\<close>.\<close>

record event_data =
  d_date :: "string option"
  d_title :: string
  d_channel :: string
  d_notes :: string
  d_signature :: signature

definition update_link :: "event_data \<Rightarrow> link \<Rightarrow> link" where
  "update_link d l =
     l\<lparr>link_date := d_date d, link_title := d_title d, link_channel := d_channel d,
       link_notes := d_notes d, link_signature := Some (d_signature d)\<rparr>"

definition new_link :: "string \<Rightarrow> pyval \<Rightarrow> event_data \<Rightarrow> link" where
  "new_link event_id new_id d =
     \<lparr>google_event_id = event_id, discord_event_id = new_id, link_date = d_date d,
      link_title = d_title d, link_channel = d_channel d, link_notes = d_notes d,
      link_signature = Some (d_signature d)\<rparr>"

text \<open>
  The inner \<open>for\<close> loop with its \<open>break\<close> works on the first link whose
  \<open>google_event_id\<close> is that of the event, and changes it in place.
\<close>

fun update_first :: "('a \<Rightarrow> bool) \<Rightarrow> ('a \<Rightarrow> 'a) \<Rightarrow> 'a list \<Rightarrow> 'a list" where
  "update_first P f [] = []"
| "update_first P f (x # xs) = (if P x then f x # xs else x # update_first P f xs)"

definition record_action :: "action \<Rightarrow> bool \<Rightarrow> world \<Rightarrow> world" where
  "record_action a ok w = w\<lparr>actions := actions w @ [(a, ok)]\<rparr>"

text \<open>The body of the loop \<open>for event in filtered_events\<close>.\<close>

definition process_event ::
  "env \<Rightarrow> pyval list \<Rightarrow> gevent \<Rightarrow> world \<Rightarrow> (error + unit) \<times> world" where
  "process_event e discord_event_ids event w =
     (case ev_id event of
        None \<Rightarrow> (Inl (KeyError ''id''), w)
      | Some event_id \<Rightarrow>
     (case get_event_signature (tz e) (TIMEZONE e) event of
        Inl err \<Rightarrow> (Inl err, w)
      | Inr current_signature \<Rightarrow>
     (case ev_start event of
        None \<Rightarrow> (Inl (KeyError ''start''), w)
      | Some start \<Rightarrow>
     (case ev_summary event of
        None \<Rightarrow> (Inl (KeyError ''summary''), w)
      | Some title \<Rightarrow>
          let data = \<lparr>d_date = time_of start, d_title = title,
                      d_channel = DISCORD_CHANNEL_ID e,
                      d_notes = get_default (ev_description event) [],
                      d_signature = current_signature\<rparr>
          in
            (case find (\<lambda>l. google_event_id l = event_id) (synced_events w) of
               Some synced_event \<Rightarrow>
                 if discord_event_id synced_event \<notin> set discord_event_ids
                 then
                   (case create_or_update_discord_event e event PyNone w of
                      (Inl err, w1) \<Rightarrow> (Inl err, w1)
                    | (Inr new_id, w1) \<Rightarrow>
                        let w2 = (if truthy new_id
                                  then save_synced_events
                                         (w1\<lparr>synced_events :=
                                               update_first (\<lambda>l. google_event_id l = event_id)
                                                 (\<lambda>l. update_link data
                                                         (l\<lparr>discord_event_id := new_id\<rparr>))
                                                 (synced_events w1)\<rparr>)
                                  else w1);
                            w3 = record_action (Recreate event_id) (truthy new_id) w2
                        in (case sleep 3 w3 of
                              Inl err \<Rightarrow> (Inl err, w3)
                            | Inr w4 \<Rightarrow> (Inr (), w4)))
                 else
                   (case events_are_different (tz e) (TIMEZONE e) event
                           (link_signature synced_event) of
                      Inl err \<Rightarrow> (Inl err, w)
                    | Inr False \<Rightarrow> (Inr (), w)
                    | Inr True \<Rightarrow>
                        (case create_or_update_discord_event e event
                                (discord_event_id synced_event) w of
                           (Inl err, w1) \<Rightarrow> (Inl err, w1)
                         | (Inr new_id, w1) \<Rightarrow>
                             let w2 = (if truthy new_id
                                       then save_synced_events
                                              (w1\<lparr>synced_events :=
                                                    update_first
                                                      (\<lambda>l. google_event_id l = event_id)
                                                      (update_link data)
                                                      (synced_events w1)\<rparr>)
                                       else w1);
                                 w3 = record_action
                                        (Update event_id (discord_event_id synced_event))
                                        (truthy new_id) w2
                             in (case sleep 3 w3 of
                                   Inl err \<Rightarrow> (Inl err, w3)
                                 | Inr w4 \<Rightarrow> (Inr (), w4))))
             | None \<Rightarrow>
                 (case create_or_update_discord_event e event PyNone w of
                    (Inl err, w1) \<Rightarrow> (Inl err, w1)
                  | (Inr new_id, w1) \<Rightarrow>
                      let w2 = (if truthy new_id
                                then save_synced_events
                                       (w1\<lparr>synced_events :=
                                             synced_events w1 @ [new_link event_id new_id data]\<rparr>)
                                else w1)
                      in (Inr (), record_action (Create event_id) (truthy new_id) w2)))))))"

fun sync_each ::
  "env \<Rightarrow> pyval list \<Rightarrow> gevent list \<Rightarrow> world \<Rightarrow> (error + unit) \<times> world" where
  "sync_each e discord_event_ids [] w = (Inr (), w)"
| "sync_each e discord_event_ids (event # events) w =
     (case process_event e discord_event_ids event w of
        (Inl err, w1) \<Rightarrow> (Inl err, w1)
      | (Inr u, w1) \<Rightarrow> sync_each e discord_event_ids events w1)"

text \<open>
  The loop \<open>for synced_event in list(synced_events["events"])\<close> over a copy of the
  store.  \<open>list.remove\<close> deletes the first entry equal to its argument and raises
  \<open>ValueError\<close> when there is none.
\<close>

fun delete_stale ::
  "env \<Rightarrow> string list \<Rightarrow> link list \<Rightarrow> world \<Rightarrow> (error + unit) \<times> world" where
  "delete_stale e google_event_ids [] w = (Inr (), w)"
| "delete_stale e google_event_ids (synced_event # rest) w =
     (if google_event_id synced_event \<notin> set google_event_ids
      then
        (case delete_discord_event e (discord_event_id synced_event) w of
           (Inl err, w1) \<Rightarrow> (Inl err, w1)
         | (Inr deleted, w1) \<Rightarrow>
             let w2 = record_action
                        (Delete_action (discord_event_id synced_event)
                           (google_event_id synced_event))
                        deleted w1
             in if synced_event \<in> set (synced_events w2)
                then
                  let w3 = save_synced_events
                             (w2\<lparr>synced_events := remove1 synced_event (synced_events w2)\<rparr>)
                  in (case sleep 3 w3 of
                        Inl err \<Rightarrow> (Inl err, w3)
                      | Inr w4 \<Rightarrow> delete_stale e google_event_ids rest w4)
                else (Inl ValueError, w2))
      else delete_stale e google_event_ids rest w)"

text \<open>
  One run of \<open>sync_events_loop\<close> on the events that the source calendar returned.  The
  \<open>except Exception\<close> clause around the body logs the exception, so the function itself
  never raises: the result is the exception that ended the cycle early, if any, and the
  state reached.
\<close>

definition sync_events_loop :: "env \<Rightarrow> gevent list \<Rightarrow> world \<Rightarrow> error option \<times> world" where
  "sync_events_loop e events w =
     (case get_discord_events e w of
        (Inl err, w1) \<Rightarrow> (Some err, w1)
      | (Inr discord_events, w1) \<Rightarrow>
          let filtered_events = filter (should_sync_event (EVENT_FILTERS e)) events
          in (case discord_event_ids_of discord_events of
                Inl err \<Rightarrow> (Some err, w1)
              | Inr discord_event_ids \<Rightarrow>
                  (case sync_each e discord_event_ids filtered_events w1 of
                     (Inl err, w2) \<Rightarrow> (Some err, w2)
                   | (Inr u, w2) \<Rightarrow>
                       (case google_event_ids_of filtered_events of
                          Inl err \<Rightarrow> (Some err, w2)
                        | Inr google_event_ids \<Rightarrow>
                            (case delete_stale e google_event_ids (synced_events w2) w2 of
                               (Inl err, w3) \<Rightarrow> (Some err, w3)
                             | (Inr u', w3) \<Rightarrow> (None, w3))))))"

section \<open>Example inputs\<close>

text \<open>
  A time zone library that knows one zone, with the summer offset of four hours behind
  UTC from April to October and five hours otherwise.  (The real rule changes in March
  and in November; the examples below use a date in July.)
\<close>

definition ny_zone :: zone where
  "ny_zone dt = (if 4 \<le> month dt \<and> month dt \<le> 10 then - 14400 else - 18000)"

definition example_tz :: tzlib where
  "example_tz =
     \<lparr>ZoneInfo = (\<lambda>name. if name = ''America/New_York'' then Some ny_zone else None),
      convert_aware = (\<lambda>zone s. None)\<rparr>"

definition example_env :: "(nat \<Rightarrow> response) \<Rightarrow> env" where
  "example_env responses =
     \<lparr>TIMEZONE = ''America/New_York'', EVENT_FILTERS = None, DISCORD_CHANNEL_ID = ''42'',
      tz = example_tz, net = responses\<rparr>"

definition no_event :: gevent where
  "no_event =
     \<lparr>ev_id = None, ev_summary = None, ev_description = None, ev_location = None,
      ev_start = None, ev_end = None, ev_creator = None, ev_attendees = None\<rparr>"

definition all_day_event :: gevent where
  "all_day_event =
     no_event\<lparr>ev_id := Some ''g1'', ev_summary := Some ''Holiday'',
       ev_start := Some \<lparr>tp_dateTime = None, tp_date = Some ''2026-07-15''\<rparr>,
       ev_end := Some \<lparr>tp_dateTime = None, tp_date = Some ''2026-07-16''\<rparr>\<rparr>"

definition private_meeting :: gevent where
  "private_meeting =
     no_event\<lparr>ev_id := Some ''g2'', ev_summary := Some ''Private meeting'',
       ev_start := Some \<lparr>tp_dateTime = Some ''2026-07-15T18:00:00Z'', tp_date = None\<rparr>,
       ev_end := Some \<lparr>tp_dateTime = Some ''2026-07-15T19:00:00Z'', tp_date = None\<rparr>\<rparr>"

definition meeting_filters :: filters where
  "meeting_filters =
     [(''title_contains'', [''meeting'']), (''exclude_title_contains'', [''private''])]"

definition stale_link :: link where
  "stale_link =
     \<lparr>google_event_id = ''g0'', discord_event_id = PyStr ''d0'', link_date = None,
      link_title = ''Gone'', link_channel = ''42'', link_notes = [], link_signature = None\<rparr>"

definition stale_world :: world where
  "stale_world =
     \<lparr>synced_events = [stale_link], mapping_file = Document [stale_link], sent = [],
      sleeps = [], actions = []\<rparr>"

text \<open>
  A target platform that lists the event \<open>d0\<close> and then answers every request with
  status 429 and a wait hint of one second.
\<close>

definition throttling :: "nat \<Rightarrow> response" where
  "throttling n =
     (if n = 0 then \<lparr>status_code = 200, body = JArray [[(''id'', PyStr ''d0'')]]\<rparr>
      else \<lparr>status_code = 429, body = JObject [(''retry_after'', PyNum 1)]\<rparr>)"




definition empty_world :: world where
  "empty_world =
     \<lparr>synced_events = [], mapping_file = Absent, sent = [], sleeps = [], actions = []\<rparr>"

definition holiday_payload :: payload where
  "holiday_payload =
     \<lparr>p_name = ''Holiday'', p_description = [],
      p_scheduled_start_time = Some ''2026-07-15T00:00:00-04:00'',
      p_scheduled_end_time = Some ''2026-07-15T23:59:59-04:00'',
      p_privacy_level = 2, p_entity_type = 3, p_channel_id = None,
      p_entity_metadata_location = Some ''External Event''\<rparr>"




definition holiday_signature :: signature where
  "holiday_signature =
     \<lparr>sig_title = ''Holiday'', sig_description = [],
      sig_start_time = Some ''2026-07-15T00:00:00-04:00'',
      sig_end_time = Some ''2026-07-15T23:59:59-04:00'',
      sig_location = [], sig_is_discord_event = False\<rparr>"

definition synced_holiday :: "pyval \<Rightarrow> link" where
  "synced_holiday v =
     \<lparr>google_event_id = ''g1'', discord_event_id = v, link_date = Some ''2026-07-15'',
      link_title = ''Holiday'', link_channel = ''42'', link_notes = [],
      link_signature = Some holiday_signature\<rparr>"

text \<open>
  Two target platforms that list no events, then accept the creation of the example
  event as \<open>d1\<close>: \<open>steady\<close> lists \<open>d1\<close> ever after; \<open>flaky\<close> fails the next listing
  and accepts what follows.  \<open>after_first_cycle\<close> is the state that a first cycle on the
  example event reaches from the empty state on either.
\<close>

definition created_id :: response where
  "created_id = \<lparr>status_code = 200, body = JObject [(''id'', PyStr ''d1'')]\<rparr>"

definition steady :: "nat \<Rightarrow> response" where
  "steady n =
     (if n = 0 then \<lparr>status_code = 200, body = JArray []\<rparr>
      else if n = 1 then created_id
      else \<lparr>status_code = 200, body = JArray [[(''id'', PyStr ''d1'')]]\<rparr>)"

definition flaky :: "nat \<Rightarrow> response" where
  "flaky n =
     (if n = 0 then \<lparr>status_code = 200, body = JArray []\<rparr>
      else if n = 2 then \<lparr>status_code = 500, body = NotJson\<rparr>
      else created_id)"

definition after_first_cycle :: world where
  "after_first_cycle =
     \<lparr>synced_events = [synced_holiday (PyStr ''d1'')],
      mapping_file = Document [synced_holiday (PyStr ''d1'')],
      sent = [Get, Post holiday_payload], sleeps = [2],
      actions = [(Create ''g1'', True)]\<rparr>"

section \<open>Rounding\<close>

lemma binade_lower_big:
  fixes a :: rat
  assumes "1 \<le> a"
  shows "2 ^ nat (bitlen \<lfloor>a\<rfloor> - 1) \<le> a" and "a < 2 ^ nat (bitlen \<lfloor>a\<rfloor>)"
proof -
  have n: "0 < \<lfloor>a\<rfloor>" using assms by linarith
  from bitlen_bounds [OF n]
  have b1: "2 ^ nat (bitlen \<lfloor>a\<rfloor> - 1) \<le> \<lfloor>a\<rfloor>" and b2: "\<lfloor>a\<rfloor> < 2 ^ nat (bitlen \<lfloor>a\<rfloor>)"
    by simp_all
  have "(of_int (2 ^ nat (bitlen \<lfloor>a\<rfloor> - 1)) :: rat) \<le> of_int \<lfloor>a\<rfloor>"
    using b1 by (simp only: of_int_le_iff)
  also have "\<dots> \<le> a" by simp
  finally show "2 ^ nat (bitlen \<lfloor>a\<rfloor> - 1) \<le> a" by simp
  have "\<lfloor>a\<rfloor> + 1 \<le> 2 ^ nat (bitlen \<lfloor>a\<rfloor>)" using b2 by simp
  then have "(of_int (\<lfloor>a\<rfloor> + 1) :: rat) \<le> of_int (2 ^ nat (bitlen \<lfloor>a\<rfloor>))"
    by (simp only: of_int_le_iff)
  moreover have "a < of_int (\<lfloor>a\<rfloor> + 1)" by linarith
  ultimately show "a < 2 ^ nat (bitlen \<lfloor>a\<rfloor>)" by simp
qed

lemma binade_lower_small:
  fixes x :: rat
  assumes "1 < x"
  shows "2 ^ nat (bitlen (\<lceil>x\<rceil> - 1) - 1) < x" and "x \<le> 2 ^ nat (bitlen (\<lceil>x\<rceil> - 1))"
proof -
  have n: "0 < \<lceil>x\<rceil> - 1" using assms by linarith
  from bitlen_bounds [OF n]
  have b1: "2 ^ nat (bitlen (\<lceil>x\<rceil> - 1) - 1) \<le> \<lceil>x\<rceil> - 1"
    and b2: "\<lceil>x\<rceil> - 1 < 2 ^ nat (bitlen (\<lceil>x\<rceil> - 1))"
    by simp_all
  have "(of_int (2 ^ nat (bitlen (\<lceil>x\<rceil> - 1) - 1)) :: rat) \<le> of_int (\<lceil>x\<rceil> - 1)"
    using b1 by (simp only: of_int_le_iff)
  moreover have "of_int (\<lceil>x\<rceil> - 1) < x" by linarith
  ultimately show "2 ^ nat (bitlen (\<lceil>x\<rceil> - 1) - 1) < x" by simp
  have "\<lceil>x\<rceil> \<le> 2 ^ nat (bitlen (\<lceil>x\<rceil> - 1))" using b2 by simp
  then have "(of_int \<lceil>x\<rceil> :: rat) \<le> of_int (2 ^ nat (bitlen (\<lceil>x\<rceil> - 1)))"
    by (simp only: of_int_le_iff)
  then have "(of_int \<lceil>x\<rceil> :: rat) \<le> 2 ^ nat (bitlen (\<lceil>x\<rceil> - 1))" by simp
  moreover have "x \<le> of_int \<lceil>x\<rceil>" by simp
  ultimately show "x \<le> 2 ^ nat (bitlen (\<lceil>x\<rceil> - 1))" by (rule order_trans [rotated])
qed

lemma binade_bounds:
  assumes "q \<noteq> 0"
  shows "power_int 2 (binade q) \<le> \<bar>q\<bar>" and "\<bar>q\<bar> < power_int 2 (binade q + 1)"
proof -
  have "power_int 2 (binade q) \<le> \<bar>q\<bar> \<and> \<bar>q\<bar> < power_int 2 (binade q + 1)"
  proof (cases "1 \<le> \<bar>q\<bar>")
    case True
    have n: "0 < \<lfloor>\<bar>q\<bar>\<rfloor>" using True by linarith
    then have k: "1 \<le> bitlen \<lfloor>\<bar>q\<bar>\<rfloor>"
      using bitlen_eq_zero_iff [of "\<lfloor>\<bar>q\<bar>\<rfloor>"] bitlen_nonneg [of "\<lfloor>\<bar>q\<bar>\<rfloor>"] by linarith
    have b: "binade q = bitlen \<lfloor>\<bar>q\<bar>\<rfloor> - 1" using True by (simp add: binade_def)
    show ?thesis
      using binade_lower_big [OF True] k unfolding b
      by (simp add: power_int_def)
  next
    case False
    let ?x = "1 / \<bar>q\<bar>"
    have q: "0 < \<bar>q\<bar>" "\<bar>q\<bar> < 1" using assms False by simp_all
    have x: "1 < ?x" using q by (simp add: field_simps)
    have n: "0 < \<lceil>?x\<rceil> - 1" using x by linarith
    then have k: "1 \<le> bitlen (\<lceil>?x\<rceil> - 1)"
      using bitlen_eq_zero_iff [of "\<lceil>?x\<rceil> - 1"] bitlen_nonneg [of "\<lceil>?x\<rceil> - 1"] by linarith
    have b: "binade q = - bitlen (\<lceil>?x\<rceil> - 1)" using False by (simp add: binade_def)
    let ?k = "bitlen (\<lceil>?x\<rceil> - 1)"
    from binade_lower_small [OF x]
    have l: "2 ^ nat (?k - 1) < ?x" and u: "?x \<le> 2 ^ nat ?k" by simp_all
    have p1: "power_int 2 (- ?k) = 1 / (2::rat) ^ nat ?k"
      using k by (simp add: power_int_def field_simps)
    have p2: "power_int 2 (- ?k + 1) = 1 / (2::rat) ^ nat (?k - 1)"
    proof (cases "?k = 1")
      case True then show ?thesis by simp
    next
      case False
      then have "- ?k + 1 < 0" using k by simp
      moreover have "nat (- (- ?k + 1)) = nat (?k - 1)" by simp
      ultimately show ?thesis by (simp add: power_int_def field_simps)
    qed
    have "1 / (2::rat) ^ nat ?k \<le> \<bar>q\<bar>"
      using u q by (simp add: field_simps)
    moreover have "\<bar>q\<bar> < 1 / (2::rat) ^ nat (?k - 1)"
      using l q by (simp add: field_simps)
    ultimately show ?thesis unfolding b p1 p2 by simp
  qed
  then show "power_int 2 (binade q) \<le> \<bar>q\<bar>" and "\<bar>q\<bar> < power_int 2 (binade q + 1)"
    by simp_all
qed

lemma round_half_even_between:
  "\<lfloor>n\<rfloor> \<le> round_half_even n" "round_half_even n \<le> \<lceil>n\<rceil>"
proof -
  show "\<lfloor>n\<rfloor> \<le> round_half_even n" by (simp add: round_half_even_def Let_def)
  show "round_half_even n \<le> \<lceil>n\<rceil>"
  proof (cases "n = of_int \<lfloor>n\<rfloor>")
    case True
    then have "n - of_int \<lfloor>n\<rfloor> = 0" by simp
    then have "round_half_even n = \<lfloor>n\<rfloor>" by (simp add: round_half_even_def Let_def)
    then show ?thesis by (simp add: floor_le_ceiling)
  next
    case False
    then have "\<lceil>n\<rceil> = \<lfloor>n\<rfloor> + 1" by (metis ceiling_altdef)
    then show ?thesis by (simp add: round_half_even_def Let_def)
  qed
qed

lemma round_half_even_ge: "of_int j \<le> n \<Longrightarrow> j \<le> round_half_even n"
  using round_half_even_between(1) [of n] le_floor_iff [of j n] by linarith

lemma round_half_even_le: "n \<le> of_int j \<Longrightarrow> round_half_even n \<le> j"
  using round_half_even_between(2) [of n] ceiling_le_iff [of n j] by linarith

lemma round_half_even_of_int [simp]: "round_half_even (of_int j) = j"
  by (simp add: round_half_even_def)


lemma pow2_pos [simp]: "0 < (power_int 2 k :: rat)"
  by simp

lemma pow2_split: "(power_int 2 (a + b) :: rat) = power_int 2 a * power_int 2 b"
  by (rule power_int_add) simp

lemma pow2_nonneg: "0 \<le> k \<Longrightarrow> (power_int 2 k :: rat) = of_int (2 ^ nat k)"
  by (simp add: power_int_def)

lemma pow2_le_D: "(power_int 2 a :: rat) \<le> power_int 2 b \<Longrightarrow> a \<le> b"
proof (rule ccontr)
  assume le: "(power_int 2 a :: rat) \<le> power_int 2 b" and "\<not> a \<le> b"
  then have "0 \<le> a - b - 1" by simp
  then have "(power_int 2 (a - b - 1) :: rat) = of_int (2 ^ nat (a - b - 1))"
    by (rule pow2_nonneg)
  then have "(1::rat) \<le> power_int 2 (a - b - 1)" by simp
  then have "(2::rat) * power_int 2 b \<le> power_int 2 (a - b - 1) * (2 * power_int 2 b)"
    by (simp add: mult_le_cancel_right)
  also have "\<dots> = power_int 2 ((a - b - 1) + (1 + b))"
    by (simp only: pow2_split power_int_1_right)
  also have "\<dots> = power_int 2 a" by simp
  finally show False using le pow2_pos [of b] by linarith
qed

lemma grid:
  fixes m :: int
  assumes m: "\<bar>m\<bar> \<le> 2 ^ 53"
    and r: "(power_int 2 e :: rat) \<le> \<bar>of_int m * power_int 2 k\<bar>"
  shows "\<exists>j. (of_int m * power_int 2 k :: rat) = of_int j * power_int 2 (e - 52)"
proof -
  have "\<bar>of_int m * power_int 2 k :: rat\<bar> = of_int \<bar>m\<bar> * power_int 2 k"
    by (simp add: abs_mult)
  also have "\<dots> \<le> of_int (2 ^ 53) * power_int 2 k"
    using m by (intro mult_right_mono) (simp_all only: of_int_le_iff, simp)
  also have "\<dots> = power_int 2 (53 + k)"
    by (simp add: pow2_split)
  finally have "(power_int 2 e :: rat) \<le> power_int 2 (53 + k)" using r by simp
  then have ek: "e \<le> 53 + k" by (rule pow2_le_D)
  show ?thesis
  proof (cases "e - 52 \<le> k")
    case True
    then have "(power_int 2 (k - (e - 52)) :: rat) = of_int (2 ^ nat (k - (e - 52)))"
      by (intro pow2_nonneg) simp
    moreover have "(power_int 2 k :: rat) = power_int 2 (k - (e - 52)) * power_int 2 (e - 52)"
      by (simp only: pow2_split [symmetric]) simp
    ultimately have "(of_int m * power_int 2 k :: rat) =
        of_int (m * 2 ^ nat (k - (e - 52))) * power_int 2 (e - 52)"
      by simp
    then show ?thesis ..
  next
    case False
    with ek have k: "k = e - 53" by simp
    have "\<bar>m\<bar> = 2 ^ 53"
    proof (rule ccontr)
      assume "\<bar>m\<bar> \<noteq> 2 ^ 53"
      with m have "\<bar>m\<bar> \<le> 2 ^ 53 - 1" by simp
      then have "(of_int \<bar>m\<bar> :: rat) \<le> of_int (2 ^ 53 - 1)" by (simp only: of_int_le_iff)
      then have "(of_int \<bar>m\<bar> :: rat) * power_int 2 k \<le> of_int (2 ^ 53 - 1) * power_int 2 k"
        by (intro mult_right_mono) simp_all
      also have "\<dots> < of_int (2 ^ 53) * power_int 2 k"
        by (intro mult_strict_right_mono) simp_all
      also have "\<dots> = power_int 2 (53 + k)" by (simp add: pow2_split)
      also have "\<dots> = power_int 2 e" using k by simp
      finally show False using r by (simp add: abs_mult)
    qed
    then have "m = 2 ^ 53 \<or> m = - (2 ^ 53)" by linarith
    then have "m = 2 * (m div 2)" by auto
    then have "(of_int m :: rat) = 2 * of_int (m div 2)"
      by (metis of_int_mult of_int_numeral)
    moreover have "(power_int 2 (e - 52) :: rat) = 2 * power_int 2 k"
      using k pow2_split [of 1 k] by simp
    ultimately have "(of_int m * power_int 2 k :: rat) = of_int (m div 2) * power_int 2 (e - 52)"
      by simp
    then show ?thesis ..
  qed
qed

lemma fl_exact:
  fixes m :: int
  assumes "\<bar>m\<bar> \<le> 2 ^ 53"
  shows "fl (of_int m * power_int 2 k) = of_int m * power_int 2 k"
proof (cases "(of_int m * power_int 2 k :: rat) = 0")
  case True
  then show ?thesis by (simp add: fl_def)
next
  case False
  let ?q = "of_int m * power_int 2 k :: rat"
  from binade_bounds(1) [OF False] have "power_int 2 (binade ?q) \<le> \<bar>?q\<bar>" .
  from grid [OF assms this] obtain j where j: "?q = of_int j * power_int 2 (binade ?q - 52)" ..
  have "?q / power_int 2 (binade ?q - 52) = of_int j"
    by (subst j) simp
  then show ?thesis using False j by (simp add: fl_def Let_def)
qed

lemma fl_shape: "\<exists>m k. \<bar>m\<bar> \<le> 2 ^ 53 \<and> fl q = of_int m * power_int 2 k"
proof (cases "q = 0")
  case True
  have "\<bar>0::int\<bar> \<le> 2 ^ 53 \<and> fl q = of_int 0 * power_int 2 0" using True by (simp add: fl_def)
  then show ?thesis by blast
next
  case False
  let ?u = "power_int 2 (binade q - 52) :: rat"
  have u: "0 < ?u" by simp
  have "\<bar>q\<bar> < power_int 2 (binade q + 1)" by (rule binade_bounds(2) [OF False])
  also have "\<dots> = power_int 2 (53 + (binade q - 52))" by (simp add: add.commute)
  also have "\<dots> = of_int (2 ^ 53) * ?u" by (simp only: pow2_split) simp
  finally have b: "\<bar>q\<bar> < of_int (2 ^ 53) * ?u" .
  have "q / ?u \<le> of_int (2 ^ 53)"
    using b u by (simp add: field_simps)
  then have le: "round_half_even (q / ?u) \<le> 2 ^ 53" by (rule round_half_even_le)
  have "of_int (- (2 ^ 53)) \<le> q / ?u"
    using b u by (simp add: field_simps)
  then have ge: "- (2 ^ 53) \<le> round_half_even (q / ?u)" by (rule round_half_even_ge)
  have "\<bar>round_half_even (q / ?u)\<bar> \<le> 2 ^ 53 \<and>
      fl q = of_int (round_half_even (q / ?u)) * power_int 2 (binade q - 52)"
    using le ge False by (simp add: fl_def Let_def)
  then show ?thesis by blast
qed

lemma fl_idem: "fl (fl q) = fl q"
proof -
  obtain m k where "\<bar>m\<bar> \<le> 2 ^ 53" "fl q = of_int m * power_int 2 k"
    using fl_shape [of q] by blast
  then show ?thesis using fl_exact [of m k] by simp
qed

lemma fl_ge:
  assumes x: "fl x = x" and le: "x \<le> q"
  shows "x \<le> fl q"
proof (cases "q = 0")
  case True
  then show ?thesis using le by (simp add: fl_def)
next
  case False
  let ?e = "binade q"
  let ?u = "power_int 2 (?e - 52) :: rat"
  have u: "0 < ?u" by simp
  have f: "fl q = of_int (round_half_even (q / ?u)) * ?u"
    using False by (simp add: fl_def Let_def)
  have lo: "power_int 2 ?e \<le> \<bar>q\<bar>" by (rule binade_bounds(1) [OF False])
  have e: "(power_int 2 ?e :: rat) = of_int (2 ^ 52) * ?u"
  proof -
    have "(power_int 2 ?e :: rat) = power_int 2 (52 + (?e - 52))" by simp
    also have "\<dots> = of_int (2 ^ 52) * ?u" by (simp only: pow2_split) simp
    finally show ?thesis .
  qed
  obtain m k where m: "\<bar>m\<bar> \<le> 2 ^ 53" and xm: "fl x = of_int m * power_int 2 k"
    using fl_shape [of x] by blast
  show ?thesis
  proof (cases "power_int 2 ?e \<le> \<bar>x\<bar>")
    case True
    then have "(power_int 2 ?e :: rat) \<le> \<bar>of_int m * power_int 2 k\<bar>" using x xm by simp
    from grid [OF m this] obtain j where "(of_int m * power_int 2 k :: rat) = of_int j * ?u" ..
    then have j: "x = of_int j * ?u" using x xm by simp
    then have "of_int j \<le> q / ?u" using le u by (simp add: field_simps)
    then have "j \<le> round_half_even (q / ?u)" by (rule round_half_even_ge)
    then have "(of_int j :: rat) \<le> of_int (round_half_even (q / ?u))" by (simp only: of_int_le_iff)
    then have "of_int j * ?u \<le> of_int (round_half_even (q / ?u)) * ?u"
      using u by (simp only: mult_le_cancel_right_pos)
    then show ?thesis using j f by simp
  next
    case small: False
    have "0 < q"
    proof (rule ccontr)
      assume "\<not> 0 < q"
      then have "\<bar>q\<bar> \<le> \<bar>x\<bar>" using le by simp
      then show False using lo small by simp
    qed
    then have "of_int (2 ^ 52) \<le> q / ?u" using lo e u by (simp add: field_simps)
    then have "2 ^ 52 \<le> round_half_even (q / ?u)" by (rule round_half_even_ge)
    then have "(of_int (2 ^ 52) :: rat) \<le> of_int (round_half_even (q / ?u))"
      by (simp only: of_int_le_iff)
    then have "of_int (2 ^ 52) * ?u \<le> of_int (round_half_even (q / ?u)) * ?u"
      using u by (simp only: mult_le_cancel_right_pos)
    then have "power_int 2 ?e \<le> fl q" using e f by simp
    moreover have "x \<le> power_int 2 ?e" using small by simp
    ultimately show ?thesis by simp
  qed
qed


lemma fl_le:
  assumes x: "fl x = x" and le: "q \<le> x"
  shows "fl q \<le> x"
proof (cases "q = 0")
  case True
  then show ?thesis using le by (simp add: fl_def)
next
  case False
  let ?e = "binade q"
  let ?u = "power_int 2 (?e - 52) :: rat"
  have u: "0 < ?u" by simp
  have f: "fl q = of_int (round_half_even (q / ?u)) * ?u"
    using False by (simp add: fl_def Let_def)
  have lo: "power_int 2 ?e \<le> \<bar>q\<bar>" by (rule binade_bounds(1) [OF False])
  have e: "(power_int 2 ?e :: rat) = of_int (2 ^ 52) * ?u"
  proof -
    have "(power_int 2 ?e :: rat) = power_int 2 (52 + (?e - 52))" by simp
    also have "\<dots> = of_int (2 ^ 52) * ?u" by (simp only: pow2_split) simp
    finally show ?thesis .
  qed
  obtain m k where m: "\<bar>m\<bar> \<le> 2 ^ 53" and xm: "fl x = of_int m * power_int 2 k"
    using fl_shape [of x] by blast
  show ?thesis
  proof (cases "power_int 2 ?e \<le> \<bar>x\<bar>")
    case True
    then have "(power_int 2 ?e :: rat) \<le> \<bar>of_int m * power_int 2 k\<bar>" using x xm by simp
    from grid [OF m this] obtain j where "(of_int m * power_int 2 k :: rat) = of_int j * ?u" ..
    then have j: "x = of_int j * ?u" using x xm by simp
    then have "q / ?u \<le> of_int j" using le u by (simp add: field_simps)
    then have "round_half_even (q / ?u) \<le> j" by (rule round_half_even_le)
    then have "(of_int (round_half_even (q / ?u)) :: rat) \<le> of_int j" by (simp only: of_int_le_iff)
    then have "of_int (round_half_even (q / ?u)) * ?u \<le> of_int j * ?u"
      using u by (simp only: mult_le_cancel_right_pos)
    then show ?thesis using j f by simp
  next
    case small: False
    have "q < 0"
    proof (rule ccontr)
      assume "\<not> q < 0"
      then have "\<bar>q\<bar> \<le> \<bar>x\<bar>" using le by simp
      then show False using lo small by simp
    qed
    then have "q / ?u \<le> of_int (- (2 ^ 52))" using lo e u by (simp add: field_simps)
    then have "round_half_even (q / ?u) \<le> - (2 ^ 52)" by (rule round_half_even_le)
    then have "(of_int (round_half_even (q / ?u)) :: rat) \<le> of_int (- (2 ^ 52))"
      by (simp only: of_int_le_iff)
    then have "of_int (round_half_even (q / ?u)) * ?u \<le> of_int (- (2 ^ 52)) * ?u"
      using u by (simp only: mult_le_cancel_right_pos)
    then have "fl q \<le> - power_int 2 ?e" using e f by simp
    moreover have "- power_int 2 ?e \<le> x" using small by simp
    ultimately show ?thesis by simp
  qed
qed

lemma fl_of_int: "\<bar>n\<bar> \<le> 2 ^ 53 \<Longrightarrow> fl (of_int n) = of_int n"
  using fl_exact [of n 0] by simp

lemma fl_half_int: "\<bar>n\<bar> \<le> 2 ^ 53 \<Longrightarrow> fl (of_int n / 2) = of_int n / 2"
  using fl_exact [of n "- 1"] by (simp add: power_int_minus field_simps)

lemma fl_numeral [simp]: "numeral n \<le> (2 ^ 53 :: int) \<Longrightarrow> fl (numeral n) = numeral n"
  using fl_of_int [of "numeral n"] by simp

lemma fl_numeral_half [simp]:
  "numeral n \<le> (2 ^ 53 :: int) \<Longrightarrow> fl (numeral n / 2) = numeral n / 2"
  using fl_half_int [of "numeral n"] by simp

lemma fl_one [simp]: "fl 1 = 1"
  using fl_of_int [of 1] by simp

lemma fl_zero [simp]: "fl 0 = 0"
  by (simp add: fl_def)

lemma fl_one_half [simp]: "fl (1 / 2) = 1 / 2"
  using fl_half_int [of 1] by simp


lemma not_too_long:
  assumes "0 \<le> secs" and "secs \<le> 9 * 10 ^ 9"
  shows "\<not> too_long secs"
proof -
  let ?q = "secs * 10 ^ 9"
  have "fl 0 = 0" by simp
  moreover have "0 \<le> ?q" using assms(1) by simp
  ultimately have lo: "0 \<le> fl ?q" by (rule fl_ge)
  have "fl (of_int 34332275390625 * power_int 2 18) = of_int 34332275390625 * power_int 2 18"
    by (rule fl_exact) simp
  then have "fl 9000000000000000000 = 9000000000000000000" by simp
  moreover have "?q \<le> 9000000000000000000" using assms(2) by simp
  ultimately have "fl ?q \<le> 9000000000000000000" by (rule fl_le)
  then show ?thesis using lo by (simp add: too_long_def Let_def)
qed

lemma too_long_numeral [simp]:
  "numeral n \<le> (9000000000 :: rat) \<Longrightarrow> too_long (numeral n) = False"
  using not_too_long [of "numeral n"] by simp

lemma too_long_numeral_half [simp]:
  "numeral n \<le> (18000000000 :: rat) \<Longrightarrow> too_long (numeral n / 2) = False"
  using not_too_long [of "numeral n / 2"] by simp

lemma float_add_numeral_half [simp]:
  "numeral n < (2 ^ 52 :: int) \<Longrightarrow> float_add (numeral n) (1 / 2) = numeral n + 1 / 2"
proof -
  assume n: "numeral n < (2 ^ 52 :: int)"
  have p: "(2::int) ^ 53 = 2 * 2 ^ 52" by simp
  have "0 \<le> (numeral n :: int)" by simp
  with n have "\<bar>2 * numeral n + 1 :: int\<bar> \<le> 2 ^ 53" unfolding p by linarith
  then have a: "fl (of_int (2 * numeral n + 1) / 2) = of_int (2 * numeral n + 1) / 2"
    by (rule fl_half_int)
  have b: "(of_int (2 * numeral n + 1) / 2 :: rat) = numeral n + 1 / 2"
    by (simp add: field_simps)
  have c: "fl (numeral n + 1 / 2) = numeral n + 1 / 2"
    using a unfolding b .
  have d: "fl (numeral n) = (numeral n :: rat)"
  proof -
    have "0 \<le> (numeral n :: int)" by simp
    with n have "\<bar>numeral n :: int\<bar> \<le> 2 ^ 53" unfolding p by linarith
    then have "fl (of_int (numeral n)) = of_int (numeral n)" by (rule fl_of_int)
    then show ?thesis by simp
  qed
  show ?thesis unfolding float_add_def d fl_one_half c ..
qed

lemma float_add_one_half [simp]: "float_add 1 (1 / 2) = 3 / 2"
  by (simp add: float_add_def)

text \<open>
  The float sum is not the exact sum.  The float of the literal \<open>0.1\<close> is
  \<open>3602879701896397 / 2 ^ 55\<close>, and \<open>0.1 + 0.5\<close> is the float of the literal \<open>0.6\<close>,
  \<open>5404319552844595 / 2 ^ 53\<close>, which is below the exact sum of the two.
\<close>

lemma float_add_rounds:
  "float_add (3602879701896397 / 36028797018963968) (1 / 2)
     = 5404319552844595 / 9007199254740992
   \<and> float_add (3602879701896397 / 36028797018963968) (1 / 2)
     < 3602879701896397 / 36028797018963968 + 1 / 2"
proof -
  have a: "fl (3602879701896397 / 36028797018963968) = 3602879701896397 / 36028797018963968"
    using fl_exact [of 3602879701896397 "- 55"] by (simp add: power_int_minus field_simps)
  have "\<lceil>36028797018963968 / 21617278211378381 :: rat\<rceil> = 2"
    by (rule ceiling_unique) simp_all
  moreover have "bitlen 1 = 1" by (subst compute_bitlen) simp
  ultimately have b: "binade (21617278211378381 / 36028797018963968) = - 1"
    by (simp add: binade_def)
  have c: "\<lfloor>21617278211378381 / 4 :: rat\<rfloor> = 5404319552844595"
    by (rule floor_unique) simp_all
  have d: "round_half_even (21617278211378381 / 4) = 5404319552844595"
    by (simp add: round_half_even_def c)
  have "fl (21617278211378381 / 36028797018963968) = 5404319552844595 / 9007199254740992"
    by (simp add: fl_def b power_int_minus d)
  then have "float_add (3602879701896397 / 36028797018963968) (1 / 2)
     = 5404319552844595 / 9007199254740992"
    unfolding float_add_def a fl_one_half by simp
  then show ?thesis by simp
qed

section \<open>Evaluation rules\<close>

lemmas char_eval = char_of_def bit_Suc_0_iff

lemmas string_eval = lower_def lower_char_def is_space_def dquote_def char_eval

lemmas cycle_eval =
  sync_events_loop_def get_discord_events_def send_def discord_event_ids_of_def
  delete_discord_event_def create_or_update_discord_event_def rate_limit_loop.simps
  max_retries_def sleep_def record_action_def save_synced_events_def process_event_def
  get_default_def

section \<open>Theorems\<close>

subsection \<open>Deleting stale links\<close>

text \<open>
  C1.  The claim: a link whose source event is no longer in the filtered set yields one
  delete action, and the link is removed from the store only when the remote delete
  succeeds; after a failed delete it stays, so that the delete is tried again in the
  next cycle.  The code removes the link whatever the delete did: here the store holds
  one stale link, the source calendar returns no events, and the platform answers the
  delete and its three retries with status 429.  The cycle records the delete as failed
  and still ends with an empty store and an empty mapping file.
\<close>

theorem stale_link_removed_after_failed_delete:
  "sync_events_loop (example_env throttling) [] stale_world =
     (None,
      \<lparr>synced_events = [], mapping_file = Document [],
       sent = [Get, Delete (PyStr ''d0''), Delete (PyStr ''d0''), Delete (PyStr ''d0''),
               Delete (PyStr ''d0'')],
       sleeps = [3 / 2, 3 / 2, 3 / 2, 2, 3],
       actions = [(Delete_action (PyStr ''d0'') ''g0'', False)]\<rparr>)"
  by (simp add: cycle_eval example_env_def throttling_def stale_world_def stale_link_def)

subsection \<open>Event filter\<close>

text \<open>
  C2.  The claim: an event that matches an exclusion clause is not eligible, even if it
  also matches an inclusion clause.  The code returns \<open>True\<close> at the first inclusion
  clause that matches and reaches the exclusion clauses only when none does, where the
  result is \<open>False\<close> either way.  With the filters \<open>title_contains: meeting\<close> and
  \<open>exclude_title_contains: private\<close>, the event titled \<open>Private meeting\<close> is eligible.
\<close>

theorem excluded_event_is_synced:
  "should_sync_event (Some meeting_filters) private_meeting = True"
  by (simp add: should_sync_event_def meeting_filters_def private_meeting_def no_event_def
        clause_hits_def get_default_def string_eval)

subsection \<open>Loading the mapping file\<close>

text \<open>
  C6, as claimed: loading never raises, and a corrupt file is read as the empty state.
  The code has no handler around \<open>json.load\<close>: on a corrupt file, loading raises.
\<close>

theorem load_corrupt_file_raises:
  "load_synced_events Corrupt = Inl JSONDecodeError"
  by (simp add: load_synced_events_def)

text \<open>
  C6, amended: loading returns the empty state when the file is absent and the stored
  links when the file holds a document; on a corrupt file it raises the error of the
  JSON parser.
\<close>

theorem load_synced_events_cases:
  "load_synced_events Absent = Inr []
   \<and> load_synced_events (Document links) = Inr links
   \<and> load_synced_events Corrupt = Inl JSONDecodeError"
  by (simp add: load_synced_events_def)

subsection \<open>Whole-day events\<close>

text \<open>Reading a string of digits and writing the number back with \<open>%0kd\<close> gives the string.\<close>

lemma digit_char_val: "digit_val c = Some v \<Longrightarrow> digit_char v = c"
  by (auto simp: digit_val_def digit_char_def Let_def split: if_splits)

lemma digit_val_less: "digit_val c = Some v \<Longrightarrow> v < 10"
  by (auto simp: digit_val_def Let_def split: if_splits)

lemma number_from_snoc:
  "number_from acc (s @ [c]) =
     (case number_from acc s of None \<Rightarrow> None
      | Some m \<Rightarrow> (case digit_val c of None \<Rightarrow> None | Some v \<Rightarrow> Some (10 * m + v)))"
  by (induction s arbitrary: acc) (auto split: option.splits)

lemma dec_step: "v < 10 \<Longrightarrow> dec (10 * m + v) = (if m = 0 then [digit_char v] else dec m @ [digit_char v])"
  by (subst dec.simps) auto

lemma digit_char_0: "digit_char 0 = CHR ''0''"
  by (simp add: digit_char_def char_eval)

lemma zpad_number: "s \<noteq> [] \<Longrightarrow> number s = Some n \<Longrightarrow> zpad (length s) n = s"
proof (induction s arbitrary: n rule: rev_nonempty_induct)
  case (single c)
  then obtain v where v: "digit_val c = Some v" "n = v"
    by (auto simp: number_def split: option.splits)
  have "v < 10" using v(1) by (rule digit_val_less)
  then have "dec v = [digit_char v]" by (subst dec.simps) simp
  with v show ?case by (simp add: zpad_def digit_char_val)
next
  case (snoc c s)
  from snoc.prems obtain m v where m: "number s = Some m" and v: "digit_val c = Some v"
    and n: "n = 10 * m + v"
    by (auto simp: number_def number_from_snoc split: option.splits)
  have vl: "v < 10" using v by (rule digit_val_less)
  have ih: "zpad (length s) m = s" using snoc.IH m by simp
  have c: "digit_char v = c" using v by (rule digit_char_val)
  show ?case
  proof (cases "m = 0")
    case True
    have "dec 0 = [CHR ''0'']" by (subst dec.simps) (simp add: digit_char_0)
    with ih True have "s = replicate (length s - 1) (CHR ''0'') @ [CHR ''0'']"
      by (simp add: zpad_def)
    then have s: "s = replicate (length s) (CHR ''0'')"
      using snoc.hyps by (metis One_nat_def Suc_pred length_greater_0_conv replicate_Suc replicate_append_same)
    have "dec v = [digit_char v]" using vl by (subst dec.simps) simp
    then have "zpad (length (s @ [c])) n = replicate (length s) (CHR ''0'') @ [c]"
      using True n c by (simp add: zpad_def)
    with s show ?thesis by simp
  next
    case False
    have "zpad (length (s @ [c])) n = replicate (length s - length (dec m)) (CHR ''0'') @ dec m @ [c]"
      using False n vl c by (simp add: zpad_def dec_step)
    also have "\<dots> = zpad (length s) m @ [c]" by (simp add: zpad_def)
    finally show ?thesis using ih by simp
  qed
qed

lemma split_date:
  assumes "length d = 10"
  shows "d = take 4 d @ [d ! 4] @ take 2 (drop 5 d) @ [d ! 7] @ take 2 (drop 8 d)"
proof -
  obtain a b c e f g h i j k where "d = [a, b, c, e, f, g, h, i, j, k]"
    using assms by (auto simp: length_Suc_conv eval_nat_numeral)
  then show ?thesis by simp
qed

lemma zpad_small: "zpad 2 0 = ''00''" "zpad 2 23 = ''23''" "zpad 2 59 = ''59''"
  by (simp_all add: zpad_def dec.simps digit_char_def char_eval)

lemma number_small: "number ''00'' = Some 0" "number ''23'' = Some 23" "number ''59'' = Some 59"
  by (simp_all add: number_def digit_val_def)

lemma no_timezone_info:
  "\<not> has_timezone_info (d @ ''T00:00:00'')" "\<not> has_timezone_info (d @ ''T23:59:59'')"
  by (simp_all add: has_timezone_info_def endswith_def suffix_def Let_def)

lemma fromisoformat_day:
  assumes "fromisoformat (d @ ''T00:00:00'') = Some midnight"
  shows "length d = 10"
    and "fromisoformat (d @ ''T23:59:59'') = Some (midnight\<lparr>hour := 23, minute := 59, second := 59\<rparr>)"
    and "isoformat midnight off = d @ ''T00:00:00'' @ format_offset off"
    and "isoformat (midnight\<lparr>hour := 23, minute := 59, second := 59\<rparr>) off = d @ ''T23:59:59'' @ format_offset off"
proof -
  show len: "length d = 10"
    using assms by (simp add: fromisoformat_def split: if_splits)
  have nth: "d ! 4 = CHR ''-''" "d ! 7 = CHR ''-''"
    using assms len by (simp_all add: fromisoformat_def nth_append split: if_splits)
  from assms len obtain y m dd where
    y: "number (take 4 d) = Some y" and m: "number (take 2 (drop 5 d)) = Some m"
    and dd: "number (take 2 (drop 8 d)) = Some dd"
    and ok: "1 \<le> y \<and> 1 \<le> m \<and> m \<le> 12 \<and> 1 \<le> dd \<and> dd \<le> days_in_month y m"
    and mid: "midnight = \<lparr>year = y, month = m, day = dd, hour = 0, minute = 0, second = 0\<rparr>"
    by (auto simp: fromisoformat_def nth_append number_small split: if_splits option.splits)
  show "fromisoformat (d @ ''T23:59:59'') = Some (midnight\<lparr>hour := 23, minute := 59, second := 59\<rparr>)"
    using len nth y m dd ok mid by (simp add: fromisoformat_def nth_append number_small)
  have ne: "d \<noteq> []" using len by auto
  have zy: "zpad 4 y = take 4 d"
    using zpad_number [of "take 4 d" y] y len ne by simp
  have zm: "zpad 2 m = take 2 (drop 5 d)"
    using zpad_number [of "take 2 (drop 5 d)" m] m len by simp
  have zd: "zpad 2 dd = take 2 (drop 8 d)"
    using zpad_number [of "take 2 (drop 8 d)" dd] dd len by simp
  have d: "zpad 4 y @ ''-'' @ zpad 2 m @ ''-'' @ zpad 2 dd = d"
    using split_date [OF len] nth by (simp add: zy zm zd)
  show "isoformat midnight off = d @ ''T00:00:00'' @ format_offset off"
    using d by (simp add: isoformat_def mid zpad_small)
  show "isoformat (midnight\<lparr>hour := 23, minute := 59, second := 59\<rparr>) off = d @ ''T23:59:59'' @ format_offset off"
    using d by (simp add: isoformat_def mid zpad_small)
qed

text \<open>
  C4.  For a whole-day event (\<open>start\<close> has \<open>date\<close> and no \<open>dateTime\<close>) on a calendar
  date \<open>d\<close>, written \<open>YYYY-MM-DD\<close>, and a configured zone that the library knows, the
  fingerprint has the start time \<open>d\<close> at 00:00:00 and the end time \<open>d\<close> at 23:59:59, each
  followed by the offset that the zone has at that local time.  With the zone
  \<open>America/New_York\<close> at four hours behind UTC in July, the event on 2026-07-15 gets
  \<open>2026-07-15T00:00:00-04:00\<close> and \<open>2026-07-15T23:59:59-04:00\<close>.
\<close>

theorem all_day_fingerprint:
  assumes "ev_start event = Some start" and "tp_dateTime start = None"
    and "tp_date start = Some d" and "ev_end event = Some end_tp"
    and "fromisoformat (d @ ''T00:00:00'') = Some midnight"
    and "ZoneInfo lib zone_name = Some zone"
  shows "\<exists>sig. get_event_signature lib zone_name event = Inr sig
           \<and> sig_start_time sig = Some (d @ ''T00:00:00'' @ format_offset (zone midnight))
           \<and> sig_end_time sig =
               Some (d @ ''T23:59:59''
                     @ format_offset (zone (midnight\<lparr>hour := 23, minute := 59, second := 59\<rparr>)))"
  using assms fromisoformat_day [OF assms(5)]
  by (simp add: get_event_signature_def event_times_def get_default_def
        convert_utc_to_timezone_def no_timezone_info Let_def)

theorem all_day_fingerprint_witness:
  "\<exists>sig. get_event_signature example_tz ''America/New_York'' all_day_event = Inr sig
     \<and> sig_start_time sig = Some ''2026-07-15T00:00:00-04:00''
     \<and> sig_end_time sig = Some ''2026-07-15T23:59:59-04:00''"
proof -
  have 1: "ev_start all_day_event = Some \<lparr>tp_dateTime = None, tp_date = Some ''2026-07-15''\<rparr>"
    and 4: "ev_end all_day_event = Some \<lparr>tp_dateTime = None, tp_date = Some ''2026-07-16''\<rparr>"
    by (simp_all add: all_day_event_def no_event_def)
  have 5: "fromisoformat (''2026-07-15'' @ ''T00:00:00'') =
             Some \<lparr>year = 2026, month = 7, day = 15, hour = 0, minute = 0, second = 0\<rparr>"
    by (simp add: fromisoformat_def number_def digit_val_def days_in_month_def)
  have 6: "ZoneInfo example_tz ''America/New_York'' = Some ny_zone"
    by (simp add: example_tz_def)
  have off: "format_offset (- 14400) = ''-04:00''"
    by (simp add: format_offset_def zpad_def dec.simps digit_char_def char_eval)
  show ?thesis
    using all_day_fingerprint [OF 1 _ _ 4 5 6] by (simp add: ny_zone_def off)
qed

subsection \<open>Totality of the fingerprint\<close>




subsection \<open>Hyperlink normalisation\<close>
















subsection \<open>Rate limiting\<close>

lemma rate_limit_loop_frame:
  "rate_limit_loop e req resp n w = (r, w') \<Longrightarrow>
     synced_events w' = synced_events w \<and> mapping_file w' = mapping_file w
     \<and> actions w' = actions w
     \<and> (\<exists>k. k \<le> max_retries - n \<and> sent w' = sent w @ replicate k req)"
proof (induction e req resp n w rule: rate_limit_loop.induct)
  case (1 e req resp n w)
  show ?case
  proof (cases "status_code resp = 429 \<and> n < max_retries")
    case False
    with "1.prems" show ?thesis by (simp add: rate_limit_loop.simps)
  next
    case True
    note loop = True
    show ?thesis
    proof (cases "body resp")
      case NotJson
      let ?w1 = "w\<lparr>sleeps := sleeps w @ [5]\<rparr>"
      let ?w2 = "?w1\<lparr>sent := sent ?w1 @ [req]\<rparr>"
      have s: "sleep 5 w = Inr ?w1" by (simp add: sleep_def)
      have d: "send e req ?w1 = (net e (length (sent ?w1)), ?w2)" by (simp add: send_def)
      have "rate_limit_loop e req (net e (length (sent ?w1))) (n + 1) ?w2 = (r, w')"
        using "1.prems" loop NotJson by (subst (asm) rate_limit_loop.simps) (simp add: s d)
      from "1.IH"(1) [OF loop NotJson s d [symmetric] this]
      obtain k where k: "k \<le> max_retries - (n + 1)" "sent w' = sent ?w2 @ replicate k req"
        and rest: "synced_events w' = synced_events w" "mapping_file w' = mapping_file w"
          "actions w' = actions w"
        by auto
      have "sent w' = sent w @ replicate (Suc k) req" using k(2) by (simp add: replicate_app_Cons_same)
      moreover have "Suc k \<le> max_retries - n" using k(1) loop by arith
      ultimately show ?thesis using rest by blast
    next
      case (JArray objs)
      with "1.prems" loop show ?thesis by (subst (asm) rate_limit_loop.simps) auto
    next
      case (JObject data)
      show ?thesis
      proof (cases "get_default (map_of data ''retry_after'') (PyNum 5)")
        case PyNone
        with "1.prems" loop JObject show ?thesis
          by (subst (asm) rate_limit_loop.simps) auto
      next
        case (PyStr v)
        with "1.prems" loop JObject show ?thesis
          by (subst (asm) rate_limit_loop.simps) auto
      next
        case (PyNum x)
        show ?thesis
        proof (cases "sleep (float_add x (1 / 2)) w")
          case (Inl err)
          with "1.prems" loop JObject PyNum show ?thesis
            by (subst (asm) rate_limit_loop.simps) auto
        next
          case (Inr slept)
          let ?w1 = "w\<lparr>sleeps := sleeps w @ [float_add x (1 / 2)]\<rparr>"
          let ?w2 = "?w1\<lparr>sent := sent ?w1 @ [req]\<rparr>"
          have s: "sleep (float_add x (1 / 2)) w = Inr ?w1"
            using Inr by (simp add: sleep_def split: if_splits)
          have d: "send e req ?w1 = (net e (length (sent ?w1)), ?w2)" by (simp add: send_def)
          have "rate_limit_loop e req (net e (length (sent ?w1))) (n + 1) ?w2 = (r, w')"
            using "1.prems" loop JObject PyNum
            by (subst (asm) rate_limit_loop.simps) (simp add: s d)
          from "1.IH"(2) [OF loop JObject PyNum s d [symmetric] this]
          obtain k where k: "k \<le> max_retries - (n + 1)" "sent w' = sent ?w2 @ replicate k req"
            and rest: "synced_events w' = synced_events w" "mapping_file w' = mapping_file w"
              "actions w' = actions w"
            by auto
          have "sent w' = sent w @ replicate (Suc k) req"
            using k(2) by (simp add: replicate_app_Cons_same)
          moreover have "Suc k \<le> max_retries - n" using k(1) loop by arith
          ultimately show ?thesis using rest by blast
        qed
      qed
    qed
  qed
qed



lemma create_or_update_frame:
  assumes "create_or_update_discord_event e event existing w = (r, w')"
  shows "synced_events w' = synced_events w \<and> mapping_file w' = mapping_file w
         \<and> actions w' = actions w
         \<and> (\<exists>req k. k \<le> 1 + max_retries \<and> sent w' = sent w @ replicate k req)"
proof (cases "build_payload e event")
  case (Inl err)
  with assms have "w' = w" by (simp add: create_or_update_discord_event_def)
  then show ?thesis by (auto intro: exI [of _ 0])
next
  case (Inr data)
  define req where "req = (if existing = PyNone then Post data else Patch existing data)"
  let ?w0 = "w\<lparr>sent := sent w @ [req]\<rparr>"
  obtain r1 w1 where l: "rate_limit_loop e req (net e (length (sent w))) 0 ?w0 = (r1, w1)"
    by (cases "rate_limit_loop e req (net e (length (sent w))) 0 ?w0")
  from rate_limit_loop_frame [OF l] obtain k where
    k: "k \<le> max_retries" "sent w1 = sent w @ replicate (Suc k) req"
    and f: "synced_events w1 = synced_events w" "mapping_file w1 = mapping_file w"
      "actions w1 = actions w"
    by (auto simp: replicate_app_Cons_same)
  have "synced_events w' = synced_events w1 \<and> mapping_file w' = mapping_file w1
        \<and> actions w' = actions w1 \<and> sent w' = sent w1"
    using assms Inr l
    by (auto simp: create_or_update_discord_event_def send_def req_def [symmetric] sleep_def
          Let_def split: sum.splits body.splits if_splits)
  with k f show ?thesis by (metis Suc_le_mono plus_1_eq_Suc)
qed

lemma delete_discord_event_frame:
  assumes "delete_discord_event e event_id w = (r, w')"
  shows "synced_events w' = synced_events w \<and> mapping_file w' = mapping_file w
         \<and> actions w' = actions w"
proof -
  let ?req = "Delete event_id"
  let ?w0 = "w\<lparr>sent := sent w @ [?req]\<rparr>"
  obtain r1 w1 where l: "rate_limit_loop e ?req (net e (length (sent w))) 0 ?w0 = (r1, w1)"
    by (cases "rate_limit_loop e ?req (net e (length (sent w))) 0 ?w0")
  from rate_limit_loop_frame [OF l] have
    f: "synced_events w1 = synced_events w" "mapping_file w1 = mapping_file w"
      "actions w1 = actions w"
    by auto
  have "synced_events w' = synced_events w1 \<and> mapping_file w' = mapping_file w1
        \<and> actions w' = actions w1"
    using assms l
    by (auto simp: delete_discord_event_def send_def sleep_def split: sum.splits)
  with f show ?thesis by simp
qed









lemma build_holiday_payload:
  "build_payload (example_env responses) all_day_event = Inr holiday_payload"
  by (simp add: build_payload_def event_times_def example_env_def example_tz_def
        all_day_event_def no_event_def get_default_def convert_utc_to_timezone_def
        no_timezone_info fromisoformat_def number_def digit_val_def days_in_month_def
        isoformat_def format_offset_def zpad_def dec.simps digit_char_def char_eval
        ny_zone_def lower_def holiday_payload_def)




subsection \<open>The loop body\<close>

text \<open>
  What one pass of the loop body does to the store, the mapping file and the trace: it
  raises and leaves them alone; it skips an unchanged event; its request fails; or it
  creates, recreates or updates the link of the event.
\<close>

lemma process_event_effect:
  assumes "process_event e ids event w = (r, w')"
  obtains
    (raised) err where "r = Inl err" "synced_events w' = synced_events w"
      "mapping_file w' = mapping_file w" "actions w' = actions w"
  | (skipped) gid sg l where "r = Inr ()" "w' = w" "ev_id event = Some gid"
      "get_event_signature (tz e) (TIMEZONE e) event = Inr sg"
      "find (\<lambda>l. google_event_id l = gid) (synced_events w) = Some l"
      "discord_event_id l \<in> set ids" "link_signature l = Some sg"
  | (failed) gid a where "r = Inr ()" "ev_id event = Some gid"
      "synced_events w' = synced_events w" "mapping_file w' = mapping_file w"
      "actions w' = actions w @ [(a, False)]"
      "case find (\<lambda>l. google_event_id l = gid) (synced_events w) of
         None \<Rightarrow> a = Create gid
       | Some l \<Rightarrow> if discord_event_id l \<notin> set ids then a = Recreate gid
                   else a = Update gid (discord_event_id l)"
  | (created) gid sg v l' where "r = Inr ()" "ev_id event = Some gid"
      "get_event_signature (tz e) (TIMEZONE e) event = Inr sg"
      "find (\<lambda>l. google_event_id l = gid) (synced_events w) = None"
      "synced_events w' = synced_events w @ [l']" "google_event_id l' = gid"
      "link_signature l' = Some sg" "discord_event_id l' = v" "truthy v"
      "mapping_file w' = Document (synced_events w')"
      "actions w' = actions w @ [(Create gid, True)]"
  | (recreated) gid sg v l f where "r = Inr ()" "ev_id event = Some gid"
      "get_event_signature (tz e) (TIMEZONE e) event = Inr sg"
      "find (\<lambda>l. google_event_id l = gid) (synced_events w) = Some l"
      "discord_event_id l \<notin> set ids"
      "synced_events w' = update_first (\<lambda>l. google_event_id l = gid) f (synced_events w)"
      "\<And>x. google_event_id (f x) = google_event_id x"
      "\<And>x. link_signature (f x) = Some sg" "\<And>x. discord_event_id (f x) = v" "truthy v"
      "mapping_file w' = Document (synced_events w')"
      "actions w' = actions w @ [(Recreate gid, True)]"
  | (updated) gid sg v l f where "r = Inr ()" "ev_id event = Some gid"
      "get_event_signature (tz e) (TIMEZONE e) event = Inr sg"
      "find (\<lambda>l. google_event_id l = gid) (synced_events w) = Some l"
      "discord_event_id l \<in> set ids" "link_signature l \<noteq> Some sg"
      "synced_events w' = update_first (\<lambda>l. google_event_id l = gid) f (synced_events w)"
      "\<And>x. google_event_id (f x) = google_event_id x"
      "\<And>x. link_signature (f x) = Some sg"
      "\<And>x. discord_event_id (f x) = discord_event_id x" "truthy v"
      "mapping_file w' = Document (synced_events w')"
      "actions w' = actions w @ [(Update gid (discord_event_id l), True)]"
proof (cases "ev_id event")
  case None
  then have "process_event e ids event w = (Inl (KeyError ''id''), w)"
    by (simp add: process_event_def Let_def)
  with assms show ?thesis by (intro raised) auto
next
  case gid: (Some gid)
  show ?thesis
  proof (cases "get_event_signature (tz e) (TIMEZONE e) event")
    case (Inl err)
    with gid have "process_event e ids event w = (Inl err, w)"
      by (simp add: process_event_def Let_def)
    with assms show ?thesis by (intro raised) auto
  next
    case sg: (Inr sg)
    show ?thesis
    proof (cases "ev_start event")
      case None
      with gid sg have "process_event e ids event w = (Inl (KeyError ''start''), w)"
        by (simp add: process_event_def Let_def)
      with assms show ?thesis by (intro raised) auto
    next
      case start: (Some start)
      show ?thesis
      proof (cases "ev_summary event")
        case None
        with gid sg start have "process_event e ids event w = (Inl (KeyError ''summary''), w)"
          by (simp add: process_event_def Let_def)
        with assms show ?thesis by (intro raised) auto
      next
        case title: (Some title)
        define data where "data = \<lparr>d_date = time_of start, d_title = title,
                      d_channel = DISCORD_CHANNEL_ID e,
                      d_notes = get_default (ev_description event) [],
                      d_signature = sg\<rparr>"
        have dsg: "d_signature data = sg" by (simp add: data_def)
        note pre = gid sg start title
        have s3: "sleep 3 x = Inr (x\<lparr>sleeps := sleeps x @ [3]\<rparr>)" for x
          by (simp add: sleep_def)
        show ?thesis
        proof (cases "find (\<lambda>l. google_event_id l = gid) (synced_events w)")
          case None
          obtain r1 w1 where c: "create_or_update_discord_event e event PyNone w = (r1, w1)"
            by (cases "create_or_update_discord_event e event PyNone w")
          note fr = create_or_update_frame [OF c]
          show ?thesis
          proof (cases r1)
            case (Inl err)
            have "process_event e ids event w = (Inl err, w1)"
              using pre None c Inl by (simp add: process_event_def Let_def)
            with assms fr show ?thesis by (intro raised) auto
          next
            case (Inr v)
            show ?thesis
            proof (cases "truthy v")
              case True
              have "process_event e ids event w =
                      (Inr (), record_action (Create gid) True
                         (save_synced_events
                            (w1\<lparr>synced_events := synced_events w1 @ [new_link gid v data]\<rparr>)))"
                using pre None c Inr True by (simp add: process_event_def Let_def data_def)
              with assms have "r = Inr ()"
                and "w' = record_action (Create gid) True
                         (save_synced_events
                            (w1\<lparr>synced_events := synced_events w1 @ [new_link gid v data]\<rparr>))"
                by simp_all
              with fr pre None True show ?thesis
                by (intro created [of gid sg "new_link gid v data" v])
                   (simp_all add: record_action_def save_synced_events_def new_link_def dsg)
            next
              case False
              have "process_event e ids event w = (Inr (), record_action (Create gid) False w1)"
                using pre None c Inr False by (simp add: process_event_def Let_def)
              with assms have "r = Inr ()" and "w' = record_action (Create gid) False w1"
                by simp_all
              with fr pre None show ?thesis
                by (intro failed [of gid "Create gid"]) (simp_all add: record_action_def)
            qed
          qed
        next
          case found: (Some l)
          show ?thesis
          proof (cases "discord_event_id l \<in> set ids")
            case missing: False
            obtain r1 w1 where c: "create_or_update_discord_event e event PyNone w = (r1, w1)"
              by (cases "create_or_update_discord_event e event PyNone w")
            note fr = create_or_update_frame [OF c]
            show ?thesis
            proof (cases r1)
              case (Inl err)
              have "process_event e ids event w = (Inl err, w1)"
                using pre found missing c Inl by (simp add: process_event_def Let_def)
              with assms fr show ?thesis by (intro raised) auto
            next
              case (Inr v)
              let ?f = "\<lambda>l. update_link data (l\<lparr>discord_event_id := v\<rparr>)"
              show ?thesis
              proof (cases "truthy v")
                case True
                have "process_event e ids event w =
                        (Inr (), (record_action (Recreate gid) True
                           (save_synced_events
                              (w1\<lparr>synced_events :=
                                    update_first (\<lambda>l. google_event_id l = gid) ?f
                                      (synced_events w1)\<rparr>)))
                           \<lparr>sleeps := sleeps w1 @ [3]\<rparr>)"
                  using pre found missing c Inr True
                  by (simp add: process_event_def Let_def data_def s3 record_action_def
                        save_synced_events_def)
                with assms have "r = Inr ()"
                  and "w' = (record_action (Recreate gid) True
                           (save_synced_events
                              (w1\<lparr>synced_events :=
                                    update_first (\<lambda>l. google_event_id l = gid) ?f
                                      (synced_events w1)\<rparr>)))
                           \<lparr>sleeps := sleeps w1 @ [3]\<rparr>"
                  by simp_all
                with fr pre found missing True show ?thesis
                  by (intro recreated [of gid sg l ?f v])
                     (simp_all add: record_action_def save_synced_events_def update_link_def dsg)
              next
                case False
                have "process_event e ids event w =
                        (Inr (), (record_action (Recreate gid) False w1)
                                   \<lparr>sleeps := sleeps w1 @ [3]\<rparr>)"
                  using pre found missing c Inr False
                  by (simp add: process_event_def Let_def s3 record_action_def)
                with assms have "r = Inr ()"
                  and "w' = (record_action (Recreate gid) False w1)\<lparr>sleeps := sleeps w1 @ [3]\<rparr>"
                  by simp_all
                with fr pre found missing show ?thesis
                  by (intro failed [of gid "Recreate gid"]) (simp_all add: record_action_def)
              qed
            qed
          next
            case present: True
            have d: "events_are_different (tz e) (TIMEZONE e) event (link_signature l)
                       = Inr (link_signature l \<noteq> Some sg)"
              using sg by (auto simp: events_are_different_def split: option.splits)
            show ?thesis
            proof (cases "link_signature l = Some sg")
              case True
              have "process_event e ids event w = (Inr (), w)"
                using pre found present d True by (simp add: process_event_def Let_def)
              with assms pre found present True show ?thesis
                by (intro skipped [of gid sg l]) simp_all
            next
              case changed: False
              obtain r1 w1 where
                c: "create_or_update_discord_event e event (discord_event_id l) w = (r1, w1)"
                by (cases "create_or_update_discord_event e event (discord_event_id l) w")
              note fr = create_or_update_frame [OF c]
              show ?thesis
              proof (cases r1)
                case (Inl err)
                have "process_event e ids event w = (Inl err, w1)"
                  using pre found present d changed c Inl by (simp add: process_event_def Let_def)
                with assms fr show ?thesis by (intro raised) auto
              next
                case (Inr v)
                show ?thesis
                proof (cases "truthy v")
                  case True
                  have "process_event e ids event w =
                          (Inr (), (record_action (Update gid (discord_event_id l)) True
                             (save_synced_events
                                (w1\<lparr>synced_events :=
                                      update_first (\<lambda>l. google_event_id l = gid)
                                        (update_link data) (synced_events w1)\<rparr>)))
                             \<lparr>sleeps := sleeps w1 @ [3]\<rparr>)"
                    using pre found present d changed c Inr True
                    by (simp add: process_event_def Let_def data_def s3 record_action_def
                          save_synced_events_def)
                  with assms have "r = Inr ()"
                    and "w' = (record_action (Update gid (discord_event_id l)) True
                             (save_synced_events
                                (w1\<lparr>synced_events :=
                                      update_first (\<lambda>l. google_event_id l = gid)
                                        (update_link data) (synced_events w1)\<rparr>)))
                             \<lparr>sleeps := sleeps w1 @ [3]\<rparr>"
                    by simp_all
                  with fr pre found present changed True show ?thesis
                    by (intro updated [of gid sg l "update_link data" v])
                       (simp_all add: record_action_def save_synced_events_def update_link_def
                          dsg)
                next
                  case False
                  have "process_event e ids event w =
                          (Inr (), (record_action (Update gid (discord_event_id l)) False w1)
                                     \<lparr>sleeps := sleeps w1 @ [3]\<rparr>)"
                    using pre found present d changed c Inr False
                    by (simp add: process_event_def Let_def s3 record_action_def)
                  with assms have "r = Inr ()"
                    and "w' = (record_action (Update gid (discord_event_id l)) False w1)
                                \<lparr>sleeps := sleeps w1 @ [3]\<rparr>"
                    by simp_all
                  with fr pre found present show ?thesis
                    by (intro failed [of gid "Update gid (discord_event_id l)"])
                       (simp_all add: record_action_def)
                qed
              qed
            qed
          qed
        qed
      qed
    qed
  qed
qed

subsection \<open>One link per source event\<close>

lemma map_update_first:
  "(\<And>x. g (f x) = g x) \<Longrightarrow> map g (update_first P f xs) = map g xs"
  by (induction xs) auto

lemma distinct_map_remove1: "distinct (map g xs) \<Longrightarrow> distinct (map g (remove1 x xs))"
proof (induction xs)
  case Nil
  then show ?case by simp
next
  case (Cons y ys)
  have "set (remove1 x ys) \<subseteq> set ys" by (rule set_remove1_subset)
  with Cons show ?case by auto
qed

lemma process_event_distinct:
  assumes "process_event e ids event w = (r, w')"
    and "distinct (map google_event_id (synced_events w))"
  shows "distinct (map google_event_id (synced_events w'))"
  using assms(1)
proof (cases rule: process_event_effect)
  case (created gid sg v l')
  then show ?thesis using assms(2) by (auto simp: find_None_iff)
next
  case (recreated gid sg v l f)
  then show ?thesis using assms(2) by (simp add: map_update_first)
next
  case (updated gid sg v l f)
  then show ?thesis using assms(2) by (simp add: map_update_first)
qed (use assms(2) in simp_all)

lemma sync_each_distinct:
  "sync_each e ids events w = (r, w') \<Longrightarrow> distinct (map google_event_id (synced_events w))
     \<Longrightarrow> distinct (map google_event_id (synced_events w'))"
proof (induction events arbitrary: w)
  case Nil
  then show ?case by simp
next
  case (Cons event events)
  obtain r1 w1 where p: "process_event e ids event w = (r1, w1)"
    by (cases "process_event e ids event w")
  from process_event_distinct [OF p Cons.prems(2)]
  have d: "distinct (map google_event_id (synced_events w1))" .
  show ?case
  proof (cases r1)
    case (Inl err)
    with Cons.prems(1) p d show ?thesis by simp
  next
    case (Inr u)
    with Cons.prems(1) p have "sync_each e ids events w1 = (r, w')" by simp
    from Cons.IH [OF this d] show ?thesis .
  qed
qed

lemma delete_stale_distinct:
  "delete_stale e gids snapshot w = (r, w') \<Longrightarrow> distinct (map google_event_id (synced_events w))
     \<Longrightarrow> distinct (map google_event_id (synced_events w'))"
proof (induction snapshot arbitrary: w)
  case Nil
  then show ?case by simp
next
  case (Cons l rest)
  show ?case
  proof (cases "google_event_id l \<in> set gids")
    case True
    with Cons.prems(1) have "delete_stale e gids rest w = (r, w')" by simp
    from Cons.IH [OF this Cons.prems(2)] show ?thesis .
  next
    case stale: False
    obtain r1 w1 where d: "delete_discord_event e (discord_event_id l) w = (r1, w1)"
      by (cases "delete_discord_event e (discord_event_id l) w")
    note fr = delete_discord_event_frame [OF d]
    show ?thesis
    proof (cases r1)
      case (Inl err)
      with Cons.prems stale d fr show ?thesis by simp
    next
      case (Inr deleted)
      show ?thesis
      proof (cases "l \<in> set (synced_events w1)")
        case False
        with Cons.prems stale d fr Inr show ?thesis
          by (auto simp: record_action_def Let_def)
      next
        case True
        let ?w4 = "w1\<lparr>actions := actions w1 @ [(Delete_action (discord_event_id l) (google_event_id l), deleted)],
                      synced_events := remove1 l (synced_events w1),
                      mapping_file := Document (remove1 l (synced_events w1)),
                      sleeps := sleeps w1 @ [3]\<rparr>"
        have "delete_stale e gids rest ?w4 = (r, w')"
          using Cons.prems(1) stale d Inr True
          by (simp add: record_action_def Let_def save_synced_events_def sleep_def)
        moreover have "distinct (map google_event_id (synced_events ?w4))"
          using Cons.prems(2) fr by (simp add: distinct_map_remove1)
        ultimately show ?thesis by (rule Cons.IH)
      qed
    qed
  qed
qed

lemma get_discord_events_frame:
  "get_discord_events e w = (r, w') \<Longrightarrow>
     synced_events w' = synced_events w \<and> mapping_file w' = mapping_file w
     \<and> actions w' = actions w \<and> sent w' = sent w @ [Get] \<and> sleeps w' = sleeps w"
  by (auto simp: get_discord_events_def send_def split: if_splits body.splits)

text \<open>
  C10.  If the store holds at most one link per source event identifier before a cycle,
  it does so after the cycle, however the cycle ends: a link is appended only when no
  link has the identifier of the event, an update changes a link in place and keeps its
  identifier, and a removal takes one link away.
\<close>

theorem one_link_per_source_event:
  assumes "distinct (map google_event_id (synced_events w))"
  shows "distinct (map google_event_id (synced_events (snd (sync_events_loop e events w))))"
proof -
  obtain r1 w1 where g: "get_discord_events e w = (r1, w1)"
    by (cases "get_discord_events e w")
  from get_discord_events_frame [OF g] assms
  have d1: "distinct (map google_event_id (synced_events w1))" by simp
  let ?filtered = "filter (should_sync_event (EVENT_FILTERS e)) events"
  show ?thesis
  proof (cases r1)
    case (Inl err)
    with g d1 show ?thesis by (simp add: sync_events_loop_def)
  next
    case (Inr discord_events)
    show ?thesis
    proof (cases "discord_event_ids_of discord_events")
      case (Inl err)
      with g d1 Inr show ?thesis by (simp add: sync_events_loop_def)
    next
      case ids: (Inr ids)
      obtain r2 w2 where s: "sync_each e ids ?filtered w1 = (r2, w2)"
        by (cases "sync_each e ids ?filtered w1")
      from sync_each_distinct [OF s d1]
      have d2: "distinct (map google_event_id (synced_events w2))" .
      show ?thesis
      proof (cases r2)
        case (Inl err)
        with g Inr ids s d2 show ?thesis by (simp add: sync_events_loop_def)
      next
        case r2: (Inr u)
        show ?thesis
        proof (cases "google_event_ids_of ?filtered")
          case (Inl err)
          with g Inr ids s r2 d2 show ?thesis by (simp add: sync_events_loop_def)
        next
          case gids: (Inr gids)
          obtain r3 w3 where dl: "delete_stale e gids (synced_events w2) w2 = (r3, w3)"
            by (cases "delete_stale e gids (synced_events w2) w2")
          from delete_stale_distinct [OF dl d2]
          have "distinct (map google_event_id (synced_events w3))" .
          with g Inr ids s r2 gids dl show ?thesis
            by (cases r3) (simp_all add: sync_events_loop_def)
        qed
      qed
    qed
  qed
qed

theorem one_link_per_source_event_witness:
  "distinct (map google_event_id (synced_events stale_world))
   \<and> distinct (map google_event_id
         (synced_events (snd (sync_events_loop (example_env throttling) [all_day_event]
                                stale_world))))"
  using one_link_per_source_event [of stale_world "example_env throttling" "[all_day_event]"]
  by (simp add: stale_world_def)

subsection \<open>A failed listing\<close>



lemma delete_stale_actions:
  "delete_stale e gids snapshot w = (r, w') \<Longrightarrow> \<exists>acts. actions w' = actions w @ acts"
proof (induction snapshot arbitrary: w)
  case Nil
  then show ?case by simp
next
  case (Cons l rest)
  show ?case
  proof (cases "google_event_id l \<in> set gids")
    case True
    with Cons.prems have "delete_stale e gids rest w = (r, w')" by simp
    from Cons.IH [OF this] show ?thesis .
  next
    case stale: False
    obtain r1 w1 where d: "delete_discord_event e (discord_event_id l) w = (r1, w1)"
      by (cases "delete_discord_event e (discord_event_id l) w")
    note fr = delete_discord_event_frame [OF d]
    show ?thesis
    proof (cases r1)
      case (Inl err)
      with Cons.prems stale d fr show ?thesis by auto
    next
      case (Inr deleted)
      let ?a = "(Delete_action (discord_event_id l) (google_event_id l), deleted)"
      show ?thesis
      proof (cases "l \<in> set (synced_events w1)")
        case False
        with Cons.prems stale d fr Inr show ?thesis
          by (auto simp: record_action_def Let_def)
      next
        case True
        let ?w4 = "w1\<lparr>actions := actions w1 @ [?a],
                      synced_events := remove1 l (synced_events w1),
                      mapping_file := Document (remove1 l (synced_events w1)),
                      sleeps := sleeps w1 @ [3]\<rparr>"
        have "delete_stale e gids rest ?w4 = (r, w')"
          using Cons.prems(1) stale d Inr True
          by (simp add: record_action_def Let_def save_synced_events_def sleep_def)
        from Cons.IH [OF this] obtain acts where "actions w' = actions ?w4 @ acts" by blast
        with fr show ?thesis by (intro exI [of _ "?a # acts"]) simp
      qed
    qed
  qed
qed

lemma example_env_fields:
  "TIMEZONE (example_env responses) = ''America/New_York''"
  "EVENT_FILTERS (example_env responses) = None"
  "DISCORD_CHANNEL_ID (example_env responses) = ''42''"
  "tz (example_env responses) = example_tz"
  "net (example_env responses) = responses"
  by (simp_all add: example_env_def)

lemma all_day_event_fields:
  "ev_id all_day_event = Some ''g1''"
  "ev_summary all_day_event = Some ''Holiday''"
  "ev_description all_day_event = None"
  "ev_start all_day_event = Some \<lparr>tp_dateTime = None, tp_date = Some ''2026-07-15''\<rparr>"
  by (simp_all add: all_day_event_def no_event_def)

lemma holiday_signature_eq:
  "get_event_signature example_tz ''America/New_York'' all_day_event = Inr holiday_signature"
  by (simp add: get_event_signature_def event_times_def example_tz_def
        all_day_event_def no_event_def get_default_def convert_utc_to_timezone_def
        no_timezone_info fromisoformat_def number_def digit_val_def days_in_month_def
        isoformat_def format_offset_def zpad_def dec.simps digit_char_def char_eval
        ny_zone_def lower_def holiday_signature_def)

lemma create_or_update_accepted:
  assumes "build_payload e event = Inr data"
    and "status_code (net e (length (sent w))) = 200"
    and "body (net e (length (sent w))) = JObject obj"
  shows "create_or_update_discord_event e event existing w =
           (Inr (get_default (map_of obj ''id'') PyNone),
            w\<lparr>sent := sent w @ [if existing = PyNone then Post data else Patch existing data],
              sleeps := sleeps w @ [2]\<rparr>)"
  using assms
  by (simp add: create_or_update_discord_event_def send_def rate_limit_loop.simps sleep_def
        Let_def)

lemmas holiday_eval =
  sync_events_loop_def get_discord_events_def send_def discord_event_ids_of_def
  should_sync_event_def process_event_def events_are_different_def
  sleep_def record_action_def save_synced_events_def
  example_env_fields all_day_event_fields holiday_signature_eq
  time_of_def get_default_def update_link_def new_link_def Let_def




subsection \<open>Idempotence\<close>

lemma find_append:
  "find P (xs @ ys) = (case find P xs of Some x \<Rightarrow> Some x | None \<Rightarrow> find P ys)"
  by (induction xs) auto

lemma find_update_first_same:
  "find P xs = Some l \<Longrightarrow> P (f l) \<Longrightarrow> find P (update_first P f xs) = Some (f l)"
  by (induction xs) (auto split: if_splits)

lemma find_update_first_other:
  "(\<And>x. Q (f x) = Q x) \<Longrightarrow> (\<And>x. P x \<Longrightarrow> \<not> Q x)
     \<Longrightarrow> find Q (update_first P f xs) = find Q xs"
  by (induction xs) auto

lemma find_filter: "(\<And>x. Q x \<Longrightarrow> K x) \<Longrightarrow> find Q (filter K xs) = find Q xs"
  by (induction xs) auto

lemma find_Some_set: "find P xs = Some x \<Longrightarrow> x \<in> set xs \<and> P x"
  by (induction xs) (auto split: if_splits)

lemma process_event_actions:
  assumes "process_event e ids event w = (r, w')"
  shows "\<exists>a. actions w' = actions w @ a"
  using assms by (cases rule: process_event_effect) auto

lemma process_event_other:
  assumes "process_event e ids event w = (r, w')" and "ev_id event \<noteq> Some gid"
  shows "find (\<lambda>l. google_event_id l = gid) (synced_events w')
           = find (\<lambda>l. google_event_id l = gid) (synced_events w)"
  using assms(1)
proof (cases rule: process_event_effect)
  case (created g sg v l')
  with assms(2) have "google_event_id l' \<noteq> gid" by auto
  with created show ?thesis by (simp add: find_append split: option.splits)
next
  case (recreated g sg v l f)
  with assms(2) have "g \<noteq> gid" by auto
  with recreated show ?thesis by (simp add: find_update_first_other)
next
  case (updated g sg v l f)
  with assms(2) have "g \<noteq> gid" by auto
  with updated show ?thesis by (simp add: find_update_first_other)
qed simp_all

lemma process_event_synced:
  assumes "process_event e ids event w = (Inr u, w')"
    and "\<forall>x\<in>set (drop (length (actions w)) (actions w')). snd x"
  shows "\<exists>gid sg l. ev_id event = Some gid
           \<and> get_event_signature (tz e) (TIMEZONE e) event = Inr sg
           \<and> find (\<lambda>l. google_event_id l = gid) (synced_events w') = Some l
           \<and> link_signature l = Some sg"
  using assms(1)
proof (cases rule: process_event_effect)
  case (failed gid a)
  with assms(2) show ?thesis by simp
next
  case (created gid sg v l')
  then show ?thesis by (simp add: find_append)
next
  case (recreated gid sg v l f)
  from recreated(4) have "google_event_id l = gid" by (auto dest: find_Some_set)
  with recreated(7) have "google_event_id (f l) = gid" by simp
  with recreated(4) have "find (\<lambda>l. google_event_id l = gid)
        (update_first (\<lambda>l. google_event_id l = gid) f (synced_events w)) = Some (f l)"
    by (intro find_update_first_same)
  with recreated show ?thesis by simp
next
  case (updated gid sg v l f)
  from updated(4) have "google_event_id l = gid" by (auto dest: find_Some_set)
  with updated(8) have "google_event_id (f l) = gid" by simp
  with updated(4) have "find (\<lambda>l. google_event_id l = gid)
        (update_first (\<lambda>l. google_event_id l = gid) f (synced_events w)) = Some (f l)"
    by (intro find_update_first_same)
  with updated show ?thesis by simp
qed simp_all

lemma process_event_returns:
  assumes "process_event e ids event w = (Inr u, w')"
  shows "ev_start event \<noteq> None \<and> ev_summary event \<noteq> None"
proof (cases "ev_id event")
  case None
  with assms show ?thesis by (simp add: process_event_def)
next
  case gid: (Some gid)
  show ?thesis
  proof (cases "get_event_signature (tz e) (TIMEZONE e) event")
    case (Inl err)
    with assms gid show ?thesis by (simp add: process_event_def)
  next
    case sg: (Inr sg)
    show ?thesis
    proof (cases "ev_start event")
      case None
      with assms gid sg show ?thesis by (simp add: process_event_def)
    next
      case start: (Some start)
      show ?thesis
      proof (cases "ev_summary event")
        case None
        with assms gid sg start show ?thesis by (simp add: process_event_def)
      next
        case (Some title)
        with start show ?thesis by simp
      qed
    qed
  qed
qed

lemma process_event_skip:
  assumes "ev_id event = Some gid"
    and "get_event_signature (tz e) (TIMEZONE e) event = Inr sg"
    and "ev_start event \<noteq> None" and "ev_summary event \<noteq> None"
    and "find (\<lambda>l. google_event_id l = gid) (synced_events w) = Some l"
    and "discord_event_id l \<in> set ids" and "link_signature l = Some sg"
  shows "process_event e ids event w = (Inr (), w)"
  using assms by (auto simp: process_event_def events_are_different_def Let_def)

lemma sync_each_actions:
  "sync_each e ids evs w = (r, w') \<Longrightarrow> \<exists>a. actions w' = actions w @ a"
proof (induction evs arbitrary: w)
  case Nil
  then show ?case by simp
next
  case (Cons event evs)
  obtain r1 w1 where p: "process_event e ids event w = (r1, w1)"
    by (cases "process_event e ids event w")
  from process_event_actions [OF p] obtain a1 where a1: "actions w1 = actions w @ a1" ..
  show ?case
  proof (cases r1)
    case (Inl err)
    with Cons.prems p a1 show ?thesis by auto
  next
    case (Inr u1)
    with Cons.prems p have "sync_each e ids evs w1 = (r, w')" by simp
    from Cons.IH [OF this] obtain a2 where "actions w' = actions w1 @ a2" ..
    with a1 show ?thesis by simp
  qed
qed

lemma sync_each_other:
  "sync_each e ids evs w = (r, w') \<Longrightarrow> Some gid \<notin> ev_id ` set evs \<Longrightarrow>
     find (\<lambda>l. google_event_id l = gid) (synced_events w')
       = find (\<lambda>l. google_event_id l = gid) (synced_events w)"
proof (induction evs arbitrary: w)
  case Nil
  then show ?case by simp
next
  case (Cons event evs)
  obtain r1 w1 where p: "process_event e ids event w = (r1, w1)"
    by (cases "process_event e ids event w")
  from Cons.prems(2) have ne: "ev_id event \<noteq> Some gid" and rest: "Some gid \<notin> ev_id ` set evs"
    by auto
  note o = process_event_other [OF p ne]
  show ?case
  proof (cases r1)
    case (Inl err)
    with Cons.prems(1) p o show ?thesis by simp
  next
    case (Inr u1)
    with Cons.prems(1) p have "sync_each e ids evs w1 = (r, w')" by simp
    from Cons.IH [OF this rest] o show ?thesis by simp
  qed
qed

lemma sync_each_synced:
  "sync_each e ids evs w = (Inr u, w') \<Longrightarrow>
   \<forall>x\<in>set (drop (length (actions w)) (actions w')). snd x \<Longrightarrow>
   distinct (map ev_id evs) \<Longrightarrow>
   \<forall>event\<in>set evs. \<exists>gid sg l. ev_id event = Some gid
      \<and> get_event_signature (tz e) (TIMEZONE e) event = Inr sg
      \<and> find (\<lambda>l. google_event_id l = gid) (synced_events w') = Some l
      \<and> link_signature l = Some sg
      \<and> ev_start event \<noteq> None \<and> ev_summary event \<noteq> None"
proof (induction evs arbitrary: w)
  case Nil
  then show ?case by simp
next
  case (Cons event evs)
  obtain r1 w1 where p: "process_event e ids event w = (r1, w1)"
    by (cases "process_event e ids event w")
  have "\<exists>u1. r1 = Inr u1"
  proof (cases r1)
    case (Inl err)
    with Cons.prems(1) p show ?thesis by simp
  next
    case (Inr u1)
    then show ?thesis by simp
  qed
  then obtain u1 where r1: "r1 = Inr u1" ..
  have p': "process_event e ids event w = (Inr u1, w1)" using p r1 by simp
  have rest: "sync_each e ids evs w1 = (Inr u, w')" using Cons.prems(1) p r1 by simp
  from process_event_actions [OF p] obtain a1 where a1: "actions w1 = actions w @ a1" ..
  from sync_each_actions [OF rest] obtain a2 where a2: "actions w' = actions w1 @ a2" ..
  have all: "\<forall>x\<in>set (a1 @ a2). snd x" using Cons.prems(2) a1 a2 by simp
  have ok1: "\<forall>x\<in>set (drop (length (actions w)) (actions w1)). snd x"
    using all a1 by simp
  have ok2: "\<forall>x\<in>set (drop (length (actions w1)) (actions w')). snd x"
    using all a2 by simp
  from Cons.prems(3) have d: "distinct (map ev_id evs)" and fresh: "ev_id event \<notin> ev_id ` set evs"
    by auto
  from process_event_synced [OF p' ok1] obtain gid sg l where
    here: "ev_id event = Some gid" "get_event_signature (tz e) (TIMEZONE e) event = Inr sg"
      "find (\<lambda>l. google_event_id l = gid) (synced_events w1) = Some l"
      "link_signature l = Some sg"
    by blast
  from fresh here(1) have "Some gid \<notin> ev_id ` set evs" by simp
  from sync_each_other [OF rest this] here(3)
  have kept: "find (\<lambda>l. google_event_id l = gid) (synced_events w') = Some l" by simp
  note fields = process_event_returns [OF p']
  note ih = Cons.IH [OF rest ok2 d]
  show ?case
  proof (intro ballI)
    fix ev assume "ev \<in> set (event # evs)"
    then consider "ev = event" | "ev \<in> set evs" by auto
    then show "\<exists>gid sg l. ev_id ev = Some gid
      \<and> get_event_signature (tz e) (TIMEZONE e) ev = Inr sg
      \<and> find (\<lambda>l. google_event_id l = gid) (synced_events w') = Some l
      \<and> link_signature l = Some sg
      \<and> ev_start ev \<noteq> None \<and> ev_summary ev \<noteq> None"
    proof cases
      case 1
      with here kept fields show ?thesis by blast
    next
      case 2
      with ih show ?thesis by (rule bspec)
    qed
  qed
qed

lemma sync_each_skip:
  "\<forall>event\<in>set evs. \<exists>gid sg l. ev_id event = Some gid
      \<and> get_event_signature (tz e) (TIMEZONE e) event = Inr sg
      \<and> find (\<lambda>l. google_event_id l = gid) (synced_events w) = Some l
      \<and> link_signature l = Some sg \<and> discord_event_id l \<in> set ids
      \<and> ev_start event \<noteq> None \<and> ev_summary event \<noteq> None
   \<Longrightarrow> sync_each e ids evs w = (Inr (), w)"
proof (induction evs)
  case Nil
  then show ?case by simp
next
  case (Cons event evs)
  from Cons.prems obtain gid sg l where "ev_id event = Some gid"
      "get_event_signature (tz e) (TIMEZONE e) event = Inr sg"
      "find (\<lambda>l. google_event_id l = gid) (synced_events w) = Some l"
      "link_signature l = Some sg" "discord_event_id l \<in> set ids"
      "ev_start event \<noteq> None" "ev_summary event \<noteq> None"
    by auto
  then have "process_event e ids event w = (Inr (), w)"
    by (intro process_event_skip)
  moreover have "sync_each e ids evs w = (Inr (), w)"
    using Cons.prems by (intro Cons.IH) simp
  ultimately show ?case by simp
qed

lemma google_event_ids_of_Inr:
  "google_event_ids_of evs = Inr gids \<Longrightarrow> map ev_id evs = map Some gids"
  by (induction evs arbitrary: gids) (auto split: option.splits sum.splits)

lemma delete_stale_filter:
  "delete_stale e gids rest w = (Inr u, w') \<Longrightarrow> synced_events w = kept @ rest \<Longrightarrow>
   \<forall>l\<in>set kept. google_event_id l \<in> set gids \<Longrightarrow>
   synced_events w' = kept @ filter (\<lambda>l. google_event_id l \<in> set gids) rest"
proof (induction rest arbitrary: w kept)
  case Nil
  then show ?case by simp
next
  case (Cons l rest)
  show ?case
  proof (cases "google_event_id l \<in> set gids")
    case True
    with Cons.prems(1) have "delete_stale e gids rest w = (Inr u, w')" by simp
    moreover have "synced_events w = (kept @ [l]) @ rest" using Cons.prems(2) by simp
    moreover have "\<forall>x\<in>set (kept @ [l]). google_event_id x \<in> set gids"
      using Cons.prems(3) True by simp
    ultimately have "synced_events w'
        = (kept @ [l]) @ filter (\<lambda>l. google_event_id l \<in> set gids) rest"
      by (rule Cons.IH)
    with True show ?thesis by simp
  next
    case stale: False
    obtain r1 w1 where d: "delete_discord_event e (discord_event_id l) w = (r1, w1)"
      by (cases "delete_discord_event e (discord_event_id l) w")
    note fr = delete_discord_event_frame [OF d]
    have "\<exists>deleted. r1 = Inr deleted"
    proof (cases r1)
      case (Inl err)
      with Cons.prems(1) stale d show ?thesis by simp
    next
      case (Inr deleted)
      then show ?thesis by simp
    qed
    then obtain deleted where r1: "r1 = Inr deleted" ..
    have notin: "l \<notin> set kept" using Cons.prems(3) stale by auto
    have mem: "l \<in> set (synced_events w1)" using fr Cons.prems(2) by simp
    have rm: "remove1 l (synced_events w1) = kept @ rest"
      using fr Cons.prems(2) notin by (simp add: remove1_append)
    let ?w4 = "w1\<lparr>actions := actions w1 @ [(Delete_action (discord_event_id l)
                                                (google_event_id l), deleted)],
                  synced_events := kept @ rest,
                  mapping_file := Document (kept @ rest),
                  sleeps := sleeps w1 @ [3]\<rparr>"
    have "delete_stale e gids rest ?w4 = (Inr u, w')"
      using Cons.prems(1) stale d r1 mem rm
      by (simp add: record_action_def Let_def save_synced_events_def sleep_def)
    moreover have "synced_events ?w4 = kept @ rest" by simp
    ultimately have "synced_events w' = kept @ filter (\<lambda>l. google_event_id l \<in> set gids) rest"
      using Cons.prems(3) by (rule Cons.IH)
    with stale show ?thesis by simp
  qed
qed

lemma delete_stale_nothing:
  "\<forall>l\<in>set snapshot. google_event_id l \<in> set gids \<Longrightarrow>
     delete_stale e gids snapshot w = (Inr (), w)"
  by (induction snapshot) auto

lemma first_cycle:
  assumes "responses 0 = \<lparr>status_code = 200, body = JArray []\<rparr>"
    and "responses 1 = created_id"
  shows "sync_events_loop (example_env responses) [all_day_event] empty_world
           = (None, after_first_cycle)"
proof -
  let ?e = "example_env responses"
  let ?w0 = "empty_world\<lparr>sent := [Get]\<rparr>"
  have g: "get_discord_events ?e empty_world = (Inr (JArray []), ?w0)"
    using assms(1)
    by (simp add: get_discord_events_def send_def example_env_fields empty_world_def)
  have c: "create_or_update_discord_event ?e all_day_event PyNone ?w0
             = (Inr (PyStr ''d1''), ?w0\<lparr>sent := [Get, Post holiday_payload], sleeps := [2]\<rparr>)"
    using create_or_update_accepted [of ?e all_day_event holiday_payload ?w0
            "[(''id'', PyStr ''d1'')]" PyNone] assms(2)
    by (simp add: build_holiday_payload example_env_fields created_id_def empty_world_def
          get_default_def)
  have p: "process_event ?e [] all_day_event ?w0 = (Inr (), after_first_cycle)"
    unfolding process_event_def
    by (simp add: c [unfolded empty_world_def, simplified] example_env_fields
          all_day_event_fields holiday_signature_eq empty_world_def synced_holiday_def
          time_of_def get_default_def new_link_def record_action_def save_synced_events_def
          after_first_cycle_def Let_def)
  show ?thesis
    unfolding sync_events_loop_def
    by (simp add: g p discord_event_ids_of_def should_sync_event_def example_env_fields
          all_day_event_fields after_first_cycle_def synced_holiday_def)
qed

text \<open>
  C5, as claimed: after a cycle in which every action succeeded, the next cycle on the
  same source events plans no action.  What the next cycle plans also depends on what
  the target platform lists then.  Here the first cycle creates the target event for the
  example event, the listing of the second cycle fails, and the second cycle recreates
  the event.
\<close>

theorem second_cycle_recreates_after_failed_listing:
  "sync_events_loop (example_env flaky) [all_day_event] empty_world = (None, after_first_cycle)
   \<and> actions after_first_cycle = [(Create ''g1'', True)]
   \<and> actions (snd (sync_events_loop (example_env flaky) [all_day_event] after_first_cycle))
       = [(Create ''g1'', True), (Recreate ''g1'', True)]"
proof -
  let ?e = "example_env flaky"
  let ?w0 = "after_first_cycle\<lparr>sent := [Get, Post holiday_payload, Get]\<rparr>"
  have 1: "sync_events_loop ?e [all_day_event] empty_world = (None, after_first_cycle)"
    by (intro first_cycle) (simp_all add: flaky_def)
  have g: "get_discord_events ?e after_first_cycle = (Inr (JArray []), ?w0)"
    by (simp add: get_discord_events_def send_def example_env_fields flaky_def
          after_first_cycle_def)
  have c: "create_or_update_discord_event ?e all_day_event PyNone ?w0
             = (Inr (PyStr ''d1''),
                ?w0\<lparr>sent := [Get, Post holiday_payload, Get, Post holiday_payload],
                    sleeps := [2, 2]\<rparr>)"
    using create_or_update_accepted [of ?e all_day_event holiday_payload ?w0
            "[(''id'', PyStr ''d1'')]" PyNone]
    by (simp add: build_holiday_payload example_env_fields created_id_def flaky_def
          after_first_cycle_def get_default_def)
  have p: "process_event ?e [] all_day_event ?w0
             = (Inr (), after_first_cycle
                  \<lparr>sent := [Get, Post holiday_payload, Get, Post holiday_payload],
                   sleeps := [2, 2, 3],
                   actions := [(Create ''g1'', True), (Recreate ''g1'', True)]\<rparr>)"
    unfolding process_event_def
    by (simp add: c [unfolded after_first_cycle_def synced_holiday_def, simplified] example_env_fields
          all_day_event_fields holiday_signature_eq after_first_cycle_def synced_holiday_def
          time_of_def get_default_def update_link_def sleep_def record_action_def
          save_synced_events_def Let_def)
  have 2: "sync_events_loop ?e [all_day_event] after_first_cycle
             = (None, after_first_cycle
                  \<lparr>sent := [Get, Post holiday_payload, Get, Post holiday_payload],
                   sleeps := [2, 2, 3],
                   actions := [(Create ''g1'', True), (Recreate ''g1'', True)]\<rparr>)"
    unfolding sync_events_loop_def
    by (simp add: g [unfolded after_first_cycle_def synced_holiday_def, simplified]
          p [unfolded after_first_cycle_def synced_holiday_def, simplified]
          discord_event_ids_of_def should_sync_event_def example_env_fields
          all_day_event_fields after_first_cycle_def synced_holiday_def)
  show ?thesis using 1 2 by (simp add: after_first_cycle_def)
qed

text \<open>
  C5, amended.  Let a cycle run to its end with every action of its trace successful, on
  source events whose eligible ones have pairwise distinct identifiers.  If the listing of
  the next cycle succeeds and shows the target identifier of every link in the store,
  then the next cycle on the same source events and filters sends the listing request and
  nothing else: it plans no action and leaves the store and the mapping file as they are.
\<close>

theorem second_cycle_plans_nothing:
  assumes first: "sync_events_loop e events w = (None, w1)"
    and ok: "\<forall>x\<in>set (drop (length (actions w)) (actions w1)). snd x"
    and dist: "distinct (map ev_id (filter (should_sync_event (EVENT_FILTERS e)) events))"
    and listing: "status_code (net e (length (sent w1))) = 200"
      "body (net e (length (sent w1))) = JArray objs" "ids_of objs = Inr ids"
    and visible: "\<forall>l\<in>set (synced_events w1). discord_event_id l \<in> set ids"
  shows "sync_events_loop e events w1 = (None, w1\<lparr>sent := sent w1 @ [Get]\<rparr>)"
proof -
  let ?F = "filter (should_sync_event (EVENT_FILTERS e)) events"
  obtain r0 wa where g: "get_discord_events e w = (r0, wa)"
    by (cases "get_discord_events e w")
  note ga = get_discord_events_frame [OF g]
  from first g obtain de where r0: "r0 = Inr de"
    by (cases r0) (auto simp: sync_events_loop_def)
  from first g r0 obtain ids1 where ids1: "discord_event_ids_of de = Inr ids1"
    by (cases "discord_event_ids_of de") (auto simp: sync_events_loop_def)
  obtain r2 wb where s: "sync_each e ids1 ?F wa = (r2, wb)"
    by (cases "sync_each e ids1 ?F wa")
  from first g r0 ids1 s obtain u where r2: "r2 = Inr u"
    by (cases r2) (auto simp: sync_events_loop_def)
  from first g r0 ids1 s r2 obtain gids where gids: "google_event_ids_of ?F = Inr gids"
    by (cases "google_event_ids_of ?F") (auto simp: sync_events_loop_def)
  let ?keep = "\<lambda>l. google_event_id l \<in> set gids"
  obtain r3 w3 where d: "delete_stale e gids (synced_events wb) wb = (r3, w3)"
    by (cases "delete_stale e gids (synced_events wb) wb")
  from first g r0 ids1 s r2 gids d have r3: "r3 = Inr ()" and w3: "w3 = w1"
    by (cases r3; auto simp: sync_events_loop_def)+
  have s': "sync_each e ids1 ?F wa = (Inr u, wb)" using s r2 by simp
  have d': "delete_stale e gids (synced_events wb) wb = (Inr (), w1)" using d r3 w3 by simp
  from sync_each_actions [OF s'] obtain a1 where a1: "actions wb = actions wa @ a1" ..
  from delete_stale_actions [OF d'] obtain a2 where a2: "actions w1 = actions wb @ a2" ..
  have okb: "\<forall>x\<in>set (drop (length (actions wa)) (actions wb)). snd x"
    using ok ga a1 a2 by simp
  note synced = sync_each_synced [OF s' okb dist]
  have store1: "synced_events w1 = filter ?keep (synced_events wb)"
    using delete_stale_filter [OF d', of "[]"] by simp
  have ids_F: "map ev_id ?F = map Some gids" using gids by (rule google_event_ids_of_Inr)
  let ?w1' = "w1\<lparr>sent := sent w1 @ [Get]\<rparr>"
  have g2: "get_discord_events e w1 = (Inr (JArray objs), ?w1')"
    using listing by (simp add: get_discord_events_def send_def)
  have i2: "discord_event_ids_of (JArray objs) = Inr ids"
    using listing by (simp add: discord_event_ids_of_def)
  have "\<forall>event\<in>set ?F. \<exists>gid sg l. ev_id event = Some gid
      \<and> get_event_signature (tz e) (TIMEZONE e) event = Inr sg
      \<and> find (\<lambda>l. google_event_id l = gid) (synced_events ?w1') = Some l
      \<and> link_signature l = Some sg \<and> discord_event_id l \<in> set ids
      \<and> ev_start event \<noteq> None \<and> ev_summary event \<noteq> None"
  proof (intro ballI)
    fix event assume ev: "event \<in> set ?F"
    with synced obtain gid sg l where
      h: "ev_id event = Some gid" "get_event_signature (tz e) (TIMEZONE e) event = Inr sg"
        "find (\<lambda>l. google_event_id l = gid) (synced_events wb) = Some l"
        "link_signature l = Some sg" "ev_start event \<noteq> None" "ev_summary event \<noteq> None"
      by blast
    from ev h(1) have "Some gid \<in> set (map ev_id ?F)" by force
    with ids_F have "gid \<in> set gids" by auto
    then have "find (\<lambda>l. google_event_id l = gid) (filter ?keep (synced_events wb))
                 = find (\<lambda>l. google_event_id l = gid) (synced_events wb)"
      by (intro find_filter) simp
    with h(3) store1 have f1: "find (\<lambda>l. google_event_id l = gid) (synced_events w1) = Some l"
      by simp
    then have "l \<in> set (synced_events w1)" by (auto dest: find_Some_set)
    with visible have "discord_event_id l \<in> set ids" by simp
    with h f1 show "\<exists>gid sg l. ev_id event = Some gid
      \<and> get_event_signature (tz e) (TIMEZONE e) event = Inr sg
      \<and> find (\<lambda>l. google_event_id l = gid) (synced_events ?w1') = Some l
      \<and> link_signature l = Some sg \<and> discord_event_id l \<in> set ids
      \<and> ev_start event \<noteq> None \<and> ev_summary event \<noteq> None"
      by auto
  qed
  then have s2: "sync_each e ids ?F ?w1' = (Inr (), ?w1')" by (rule sync_each_skip)
  have "\<forall>l\<in>set (synced_events ?w1'). google_event_id l \<in> set gids"
    using store1 by simp
  then have d2: "delete_stale e gids (synced_events ?w1') ?w1' = (Inr (), ?w1')"
    by (rule delete_stale_nothing)
  show ?thesis
    unfolding sync_events_loop_def by (simp add: g2 i2 s2 gids d2 [simplified])
qed

theorem second_cycle_plans_nothing_witness:
  "sync_events_loop (example_env steady) [all_day_event] empty_world = (None, after_first_cycle)
   \<and> sync_events_loop (example_env steady) [all_day_event] after_first_cycle
       = (None, after_first_cycle\<lparr>sent := [Get, Post holiday_payload, Get]\<rparr>)"
proof -
  let ?e = "example_env steady"
  have 1: "sync_events_loop ?e [all_day_event] empty_world = (None, after_first_cycle)"
    by (intro first_cycle) (simp_all add: steady_def)
  have ok: "\<forall>x\<in>set (drop (length (actions empty_world)) (actions after_first_cycle)). snd x"
    by (simp add: empty_world_def after_first_cycle_def)
  have dist: "distinct (map ev_id (filter (should_sync_event (EVENT_FILTERS ?e))
                                     [all_day_event]))"
    by simp
  have l1: "status_code (net ?e (length (sent after_first_cycle))) = 200"
    and l2: "body (net ?e (length (sent after_first_cycle))) = JArray [[(''id'', PyStr ''d1'')]]"
    by (simp_all add: example_env_fields steady_def after_first_cycle_def)
  have l3: "ids_of [[(''id'', PyStr ''d1'')]] = Inr [PyStr ''d1'']" by simp
  have vis: "\<forall>l\<in>set (synced_events after_first_cycle). discord_event_id l \<in> set [PyStr ''d1'']"
    by (simp add: after_first_cycle_def synced_holiday_def)
  from second_cycle_plans_nothing [OF 1 ok dist l1 l2 l3 vis] 1
  show ?thesis by (simp add: after_first_cycle_def)
qed

end
